theory Spec2Isabelle
  imports Complex_Main
begin

section \<open>Data model of the CV distribution pipeline\<close>

text \<open>
  The documents of the store, as \<^verbatim>\<open>services/cvDistributionService.js\<close> reads and writes
  them. A \<^verbatim>\<open>Date\<close> is its \<^verbatim>\<open>getTime()\<close> value, milliseconds since the epoch. A field
  the code guards with \<^verbatim>\<open>||\<close> may be missing from a document and is an option.
  Only the fields the service touches are kept.
\<close>

type_synonym time = int
type_synonym objectId = nat

record emailObj =
  email :: string
  emailIsActive :: bool

record distribution_settings =
  maxCVsPerDay :: "int option"
  dailyCount :: "int option"
  lastCountReset :: "time option"

record company =
  company_id :: objectId
  companyName :: string
  isRecruitmentAgency :: bool
  isRecruitmentAccess :: string
  isActive :: bool
  recruitmentEmails :: "emailObj list"
  supportRegions :: "string list"
  distributionSettings :: "distribution_settings option"

record subscription =
  companyId :: objectId
  subStatus :: string
  expirationDate :: time

record log_entry =
  timestamp :: time
  candidateId :: objectId
  agencyId :: objectId
  logSuccess :: bool
  logError :: "string option"
  processingTime :: int

record position =
  title :: string
  experience :: string

record candidate =
  candidate_id :: objectId
  positions :: "position list option"
  location :: "string option"
  address :: "string option"
  city :: "string option"

text \<open>
  An eligible agency is the lean document with the effective count beside it
  (\<^verbatim>\<open>{...agency, currentDailyCount}\<close>).
\<close>

record eligible =
  agency :: company
  currentDailyCount :: int

text \<open>
  A queued job \<^verbatim>\<open>{candidate, agencies, timestamp, id}\<close>; the id
  \<^verbatim>\<open>`${candidate._id}_${Date.now()}`\<close> is the pair of its two parts.
\<close>

record task =
  taskCandidate :: candidate
  taskAgencies :: "eligible list"
  taskTimestamp :: time
  taskId :: "objectId \<times> time"

text \<open>
  The state of the process outside the service object: the two collections, whether the
  store answers (a query on a store that does not answer throws), and the monitor
  singleton's \<^verbatim>\<open>healthChecks\<close> map. A JavaScript \<^verbatim>\<open>Map\<close> iterates in insertion order, so
  it is a list of key and value pairs with distinct keys.
\<close>

record world =
  companies :: "company list"
  subscriptions :: "subscription list"
  dbConnected :: bool
  healthChecks :: "(string \<times> log_entry) list"

datatype error = InvalidCandidate | NoActiveEmails | ChannelError | DbError

section \<open>QuotaTracker: \<^verbatim>\<open>updateDailyCount\<close>\<close>

definition oneDayMs :: int where
  "oneDayMs = 24 * 60 * 60 * 1000"

text \<open>
  \<^verbatim>\<open>findOneAndUpdate(filter, update)\<close> and \<^verbatim>\<open>findByIdAndUpdate(id, update)\<close> change
  the first document that matches and nothing when none does.
\<close>

fun findOneAndUpdate :: "('a \<Rightarrow> bool) \<Rightarrow> ('a \<Rightarrow> 'a) \<Rightarrow> 'a list \<Rightarrow> 'a list" where
  "findOneAndUpdate p f [] = []"
| "findOneAndUpdate p f (d # ds) = (if p d then f d # ds else d # findOneAndUpdate p f ds)"

text \<open>
  The filter \<^verbatim>\<open>{'distributionSettings.lastCountReset': {$lt: oneDayAgo}}\<close> matches only a
  document that has the field.
\<close>

definition lastCountResetLt :: "time \<Rightarrow> company \<Rightarrow> bool" where
  "lastCountResetLt oneDayAgo c =
     (case distributionSettings c of
        None \<Rightarrow> False
      | Some st \<Rightarrow> (case lastCountReset st of None \<Rightarrow> False | Some t \<Rightarrow> t < oneDayAgo))"

definition emptySettings :: distribution_settings where
  "emptySettings = \<lparr>maxCVsPerDay = None, dailyCount = None, lastCountReset = None\<rparr>"

text \<open>\<^verbatim>\<open>$set: {dailyCount: 1, lastCountReset: now}\<close> on the sub-document.\<close>

definition setCountReset :: "time \<Rightarrow> company \<Rightarrow> company" where
  "setCountReset now c =
     (let st = (case distributionSettings c of None \<Rightarrow> emptySettings | Some st \<Rightarrow> st)
      in c\<lparr>distributionSettings := Some (st\<lparr>dailyCount := Some 1, lastCountReset := Some now\<rparr>)\<rparr>)"

text \<open>\<^verbatim>\<open>$inc: {dailyCount: 1}\<close>: a missing field counts from 0.\<close>

definition incDailyCount :: "company \<Rightarrow> company" where
  "incDailyCount c =
     (let st = (case distributionSettings c of None \<Rightarrow> emptySettings | Some st \<Rightarrow> st)
      in c\<lparr>distributionSettings :=
            Some (st\<lparr>dailyCount := Some ((case dailyCount st of None \<Rightarrow> 0 | Some n \<Rightarrow> n) + 1)\<rparr>)\<rparr>)"

text \<open>
  The two updates run one after the other, the second without any condition. An error of
  the store is caught and logged: the function never throws.
\<close>

definition updateDailyCount :: "time \<Rightarrow> objectId \<Rightarrow> world \<Rightarrow> world" where
  "updateDailyCount now cid w =
     (if \<not> dbConnected w then w
      else
        let oneDayAgo = now - oneDayMs;
            afterReset = findOneAndUpdate
              (\<lambda>c. company_id c = cid \<and> lastCountResetLt oneDayAgo c) (setCountReset now) (companies w);
            afterInc = findOneAndUpdate (\<lambda>c. company_id c = cid) incDailyCount afterReset
        in w\<lparr>companies := afterInc\<rparr>)"

text \<open>Reading one agency's counter back from the store.\<close>

fun findById :: "objectId \<Rightarrow> company list \<Rightarrow> company option" where
  "findById cid [] = None"
| "findById cid (c # cs) = (if company_id c = cid then Some c else findById cid cs)"

definition storedDailyCount :: "objectId \<Rightarrow> world \<Rightarrow> int option" where
  "storedDailyCount cid w =
     (case findById cid (companies w) of
        None \<Rightarrow> None
      | Some c \<Rightarrow> (case distributionSettings c of None \<Rightarrow> None | Some st \<Rightarrow> dailyCount st))"

definition storedLastCountReset :: "objectId \<Rightarrow> world \<Rightarrow> time option" where
  "storedLastCountReset cid w =
     (case findById cid (companies w) of
        None \<Rightarrow> None
      | Some c \<Rightarrow> (case distributionSettings c of None \<Rightarrow> None | Some st \<Rightarrow> lastCountReset st))"

section \<open>EligibilityResolver\<close>

subsection \<open>\<^verbatim>\<open>extractRegionFromCandidate\<close>\<close>

text \<open>Strings are ASCII here: \<^verbatim>\<open>toLowerCase\<close> maps \<^verbatim>\<open>A\<close>..\<^verbatim>\<open>Z\<close> and keeps the rest.\<close>

definition toLowerChar :: "char \<Rightarrow> char" where
  "toLowerChar c = (let n = (of_char c :: nat) in if 65 \<le> n \<and> n \<le> 90 then char_of (n + 32) else c)"

definition toLowerCase :: "string \<Rightarrow> string" where
  "toLowerCase s = map toLowerChar s"

fun startsWith :: "string \<Rightarrow> string \<Rightarrow> bool" where
  "startsWith s [] = True"
| "startsWith [] (c # cs) = False"
| "startsWith (x # xs) (c # cs) = (x = c \<and> startsWith xs cs)"

text \<open>\<^verbatim>\<open>s.includes(sub)\<close>: \<^verbatim>\<open>sub\<close> occurs in \<^verbatim>\<open>s\<close> as a contiguous run.\<close>

fun includesStr :: "string \<Rightarrow> string \<Rightarrow> bool" where
  "includesStr [] sub = (sub = [])"
| "includesStr (x # xs) sub = (startsWith (x # xs) sub \<or> includesStr xs sub)"

definition canonicalRegions :: "string list" where
  "canonicalRegions = [''north'', ''center'', ''lowlands'', ''south'']"

text \<open>
  The loop over \<^verbatim>\<open>Object.entries(regionMap)\<close>: the first city of the table that occurs
  in the location decides, \<^verbatim>\<open>'center'\<close> is the fallback. The table itself, a literal of
  city names in Hebrew, is the parameter \<open>regionMap\<close>, in the literal's order.
\<close>

fun lookupRegion :: "(string \<times> string) list \<Rightarrow> string \<Rightarrow> string" where
  "lookupRegion [] loc = ''center''"
| "lookupRegion ((cityName, region) # rest) loc =
     (if includesStr loc cityName then region else lookupRegion rest loc)"

text \<open>\<^verbatim>\<open>a || b || ''\<close> on strings: a missing or empty string is falsy.\<close>

definition truthyStr :: "string option \<Rightarrow> bool" where
  "truthyStr s = (case s of None \<Rightarrow> False | Some v \<Rightarrow> v \<noteq> [])"

definition extractRegionFromCandidate :: "(string \<times> string) list \<Rightarrow> candidate \<Rightarrow> string" where
  "extractRegionFromCandidate regionMap cand =
     (if truthyStr (location cand) \<and> toLowerCase (the (location cand)) \<in> set canonicalRegions
      then toLowerCase (the (location cand))
      else
        let loc = toLowerCase
              (if truthyStr (address cand) then the (address cand)
               else if truthyStr (city cand) then the (city cand) else [])
        in lookupRegion regionMap loc)"

subsection \<open>\<^verbatim>\<open>getEligibleAgencies\<close>\<close>

text \<open>The filter of \<^verbatim>\<open>Company.find\<close>.\<close>

definition agencyQuery :: "string \<Rightarrow> company \<Rightarrow> bool" where
  "agencyQuery candidateRegion c =
     (isRecruitmentAgency c \<and> isRecruitmentAccess c = ''approved'' \<and> isActive c \<and>
      recruitmentEmails c \<noteq> [] \<and> candidateRegion \<in> set (supportRegions c))"

text \<open>The filter of \<^verbatim>\<open>Subscription.find\<close>.\<close>

definition subscriptionQuery :: "objectId list \<Rightarrow> time \<Rightarrow> subscription \<Rightarrow> bool" where
  "subscriptionQuery companyIds now sb =
     (companyId sb \<in> set companyIds \<and> subStatus sb = ''active'' \<and> now < expirationDate sb)"

text \<open>
  The daily limit of one agency, as the loop body computes it. \<^verbatim>\<open>x || d\<close> on numbers
  takes \<^verbatim>\<open>d\<close> for a missing field and for 0.
\<close>

definition settingsOf :: "company \<Rightarrow> distribution_settings" where
  "settingsOf c = (case distributionSettings c of None \<Rightarrow> emptySettings | Some st \<Rightarrow> st)"

definition maxDaily :: "company \<Rightarrow> int" where
  "maxDaily c = (case maxCVsPerDay (settingsOf c) of None \<Rightarrow> 50 | Some m \<Rightarrow> if m = 0 then 50 else m)"

definition storedCount :: "company \<Rightarrow> int" where
  "storedCount c = (case dailyCount (settingsOf c) of None \<Rightarrow> 0 | Some n \<Rightarrow> n)"

definition lastReset :: "company \<Rightarrow> time" where
  "lastReset c = (case lastCountReset (settingsOf c) of None \<Rightarrow> 0 | Some t \<Rightarrow> t)"

definition effectiveCount :: "time \<Rightarrow> company \<Rightarrow> int" where
  "effectiveCount now c = (if lastReset c < now - oneDayMs then 0 else storedCount c)"

text \<open>The \<^verbatim>\<open>for (const agency of agencies)\<close> loop, in the order of the query's answer.\<close>

fun eligibleLoop :: "time \<Rightarrow> objectId list \<Rightarrow> company list \<Rightarrow> eligible list" where
  "eligibleLoop now activeCompanyIds [] = []"
| "eligibleLoop now activeCompanyIds (c # rest) =
     (if company_id c \<notin> set activeCompanyIds then eligibleLoop now activeCompanyIds rest
      else if effectiveCount now c < maxDaily c
      then \<lparr>agency = c, currentDailyCount = effectiveCount now c\<rparr> #
           eligibleLoop now activeCompanyIds rest
      else eligibleLoop now activeCompanyIds rest)"

text \<open>A store that does not answer makes either query throw, and the error is rethrown.\<close>

definition getEligibleAgencies :: "time \<Rightarrow> string \<Rightarrow> world \<Rightarrow> error + eligible list" where
  "getEligibleAgencies now candidateRegion w =
     (if \<not> dbConnected w then Inl DbError
      else
        let agencies = filter (agencyQuery candidateRegion) (companies w);
            companyIds = map company_id agencies;
            activeSubscriptions = filter (subscriptionQuery companyIds now) (subscriptions w);
            activeCompanyIds = map companyId activeSubscriptions
        in Inr (eligibleLoop now activeCompanyIds agencies))"

section \<open>BatchDispatcher\<close>

subsection \<open>\<^verbatim>\<open>sendCVToAgency\<close>\<close>

text \<open>
  The DeliveryChannel is the parameter \<open>chan\<close>: \<open>chan a e\<close> says whether
  \<^verbatim>\<open>emailService.sendCVDistributionEmail(e, cvData, agency)\<close> resolves for the agency with id
  \<open>a\<close>. One call is issued per active address, all of them before any is awaited, and
  \<^verbatim>\<open>Promise.all\<close> rejects when one of them does. The error is rethrown: the promise of
  \<^verbatim>\<open>sendCVToAgency\<close> rejects. \<^verbatim>\<open>formatCandidateDataForEmail\<close> only builds the payload of
  the email from a candidate that has passed the check of \<^verbatim>\<open>distributeCVToAgencies\<close>; the
  payload is part of what \<open>chan\<close> stands for.
\<close>

definition activeEmails :: "eligible \<Rightarrow> string list" where
  "activeEmails ag = map email (filter emailIsActive (recruitmentEmails (agency ag)))"

definition sendCVToAgency :: "(objectId \<Rightarrow> string \<Rightarrow> bool) \<Rightarrow> candidate \<Rightarrow> eligible \<Rightarrow> error + bool" where
  "sendCVToAgency chan cand ag =
     (if activeEmails ag = [] then Inl NoActiveEmails
      else if list_all (chan (company_id (agency ag))) (activeEmails ag) then Inr True
      else Inl ChannelError)"

subsection \<open>\<^verbatim>\<open>processBatch\<close>\<close>

record batch_result =
  success :: nat
  errors :: nat

text \<open>
  \<^verbatim>\<open>results.forEach((result, index) => ...)\<close> over the settled promises: a fulfilled one
  counts as a success and starts \<^verbatim>\<open>updateDailyCount(agencies[index]._id)\<close>, a rejected one
  counts as an error. The quota updates are not awaited; each is two writes to one
  document, applied here in the order the updates are started. The monitor is not called.
\<close>

fun forEachResult :: "time \<Rightarrow> ((error + bool) \<times> eligible) list \<Rightarrow> batch_result \<times> world \<Rightarrow> batch_result \<times> world" where
  "forEachResult now [] acc = acc"
| "forEachResult now ((result, ag) # rest) (r, w) =
     (case result of
        Inr v \<Rightarrow> forEachResult now rest
                 (r\<lparr>success := success r + 1\<rparr>, updateDailyCount now (company_id (agency ag)) w)
      | Inl e \<Rightarrow> forEachResult now rest (r\<lparr>errors := errors r + 1\<rparr>, w))"

text \<open>
  \<open>now\<close> is the time at which \<^verbatim>\<open>Promise.allSettled\<close> resolves, which
  \<^verbatim>\<open>updateDailyCount\<close> reads as \<^verbatim>\<open>new Date()\<close>. \<^verbatim>\<open>allSettled\<close> never rejects, so the
  function always returns its two counters.
\<close>

definition processBatch :: "(objectId \<Rightarrow> string \<Rightarrow> bool) \<Rightarrow> time \<Rightarrow> candidate \<Rightarrow> eligible list \<Rightarrow> world \<Rightarrow> batch_result \<times> world" where
  "processBatch chan now cand agencies w =
     (let results = map (sendCVToAgency chan cand) agencies
      in forEachResult now (zip results agencies) (\<lparr>success = 0, errors = 0\<rparr>, w))"

subsection \<open>\<^verbatim>\<open>processSingleDistribution\<close>\<close>

text \<open>\<^verbatim>\<open>xs.slice(i, j)\<close> for \<open>i \<le> j\<close>.\<close>

definition slice :: "nat \<Rightarrow> nat \<Rightarrow> 'a list \<Rightarrow> 'a list" where
  "slice i j xs = take (j - i) (drop i xs)"

text \<open>
  The \<^verbatim>\<open>for (let i = 0; i < agencies.length; i += this.maxBatchSize)\<close> loop with a clock.
  \<^verbatim>\<open>processBatch(candidate, batch)\<close> is called and its promise only collected: the sends of
  the batch are issued at the clock's time \<open>t\<close>, and the loop goes on without waiting for
  them. \<^verbatim>\<open>await this.delay(500)\<close> advances the clock by 500 when another batch follows.
  The result pairs every batch with the time of its dispatch. With a batch size of 0 the
  source never leaves the loop, which is the value \<open>None\<close>.
\<close>

partial_function (option) batchLoop :: "nat \<Rightarrow> eligible list \<Rightarrow> nat \<Rightarrow> time \<Rightarrow> (time \<times> eligible list) list option" where
  "batchLoop maxBatchSize agencies i t =
     (if i < length agencies then
        Option.bind
          (batchLoop maxBatchSize agencies (i + maxBatchSize)
             (if i + maxBatchSize < length agencies then t + 500 else t))
          (\<lambda>rest. Some ((t, slice i (i + maxBatchSize) agencies) # rest))
      else Some [])"

text \<open>
  A batch settles when the last of its sends has: \<open>lat a\<close> is the time the send to the
  agency with id \<open>a\<close> takes to settle, in milliseconds.
\<close>

definition settleTime :: "(objectId \<Rightarrow> nat) \<Rightarrow> time \<Rightarrow> eligible list \<Rightarrow> time" where
  "settleTime lat t batch = t + int (foldr (\<lambda>ag m. max (lat (company_id (agency ag))) m) batch 0)"

record batch_run =
  dispatchedAt :: time
  settledAt :: time
  batchAgencies :: "eligible list"
  batchResult :: batch_result

fun runBatches :: "(objectId \<Rightarrow> string \<Rightarrow> bool) \<Rightarrow> (objectId \<Rightarrow> nat) \<Rightarrow> candidate \<Rightarrow> (time \<times> eligible list) list \<Rightarrow> world \<Rightarrow> batch_run list \<times> world" where
  "runBatches chan lat cand [] w = ([], w)"
| "runBatches chan lat cand ((t, batch) # rest) w =
     (let settled = settleTime lat t batch;
          (r, w1) = processBatch chan settled cand batch w;
          (runs, w2) = runBatches chan lat cand rest w1
      in (\<lparr>dispatchedAt = t, settledAt = settled, batchAgencies = batch, batchResult = r\<rparr> # runs, w2))"

record job_report =
  batchRuns :: "batch_run list"
  successCount :: nat
  errorCount :: nat
  finishedAt :: time

text \<open>
  \<^verbatim>\<open>await Promise.allSettled(batchPromises)\<close> after the loop: the job is over when every
  batch has settled. Every batch promise fulfils, so the tally adds the counters of the
  batches. The writes of different batches go to different documents and are applied in
  the order of the batches.
\<close>

definition processSingleDistribution :: "(objectId \<Rightarrow> string \<Rightarrow> bool) \<Rightarrow> (objectId \<Rightarrow> nat) \<Rightarrow> nat \<Rightarrow> time \<Rightarrow> task \<Rightarrow> world \<Rightarrow> (job_report \<times> world) option" where
  "processSingleDistribution chan lat maxBatchSize t0 tk w =
     (case batchLoop maxBatchSize (taskAgencies tk) 0 t0 of
        None \<Rightarrow> None
      | Some sched \<Rightarrow>
          let (runs, w1) = runBatches chan lat (taskCandidate tk) sched w
          in Some (\<lparr>batchRuns = runs,
                     successCount = sum_list (map (\<lambda>b. success (batchResult b)) runs),
                     errorCount = sum_list (map (\<lambda>b. errors (batchResult b)) runs),
                     finishedAt = foldr (\<lambda>b m. max (settledAt b) m) runs t0\<rparr>, w1))"

section \<open>DispatchQueue\<close>

text \<open>
  The service object. \<^verbatim>\<open>processDistributionQueue\<close> is an \<^verbatim>\<open>async\<close> function: a call that
  passes the guard becomes a drain loop that is suspended either in
  \<^verbatim>\<open>await this.processSingleDistribution(task)\<close> or in \<^verbatim>\<open>await this.delay(this.batchDelay)\<close>.
  \<open>drains\<close> lists the loops alive with the point each is suspended at. \<open>pushed\<close>,
  \<open>started\<close> and \<open>completed\<close> are history: the jobs ever pushed, shifted off the queue
  and settled, oldest first.
\<close>

datatype drain = Processing task | Delaying int

record service =
  isProcessing :: bool
  distributionQueue :: "task list"
  maxBatchSize :: nat
  batchDelay :: int
  drains :: "drain list"
  pushed :: "task list"
  started :: "task list"
  completed :: "task list"

text \<open>The constructor.\<close>

definition newService :: service where
  "newService = \<lparr>isProcessing = False, distributionQueue = [], maxBatchSize = 100, batchDelay = 1000,
     drains = [], pushed = [], started = [], completed = []\<rparr>"

text \<open>
  One evaluation of \<^verbatim>\<open>while (this.distributionQueue.length > 0)\<close> by a drain loop: either
  \<^verbatim>\<open>shift()\<close> hands it the front job, or the loop is left and \<^verbatim>\<open>finally\<close> clears the flag.
\<close>

definition nextIteration :: "service \<Rightarrow> drain option \<times> service" where
  "nextIteration s =
     (case distributionQueue s of
        [] \<Rightarrow> (None, s\<lparr>isProcessing := False\<rparr>)
      | tk # rest \<Rightarrow> (Some (Processing tk), s\<lparr>distributionQueue := rest, started := started s @ [tk]\<rparr>))"

definition removeAt :: "nat \<Rightarrow> 'a list \<Rightarrow> 'a list" where
  "removeAt k xs = take k xs @ drop (Suc k) xs"

text \<open>The drain loop at index \<open>k\<close> is suspended again, or has ended.\<close>

definition suspend :: "nat \<Rightarrow> drain option \<times> service \<Rightarrow> service" where
  "suspend k ds =
     (case ds of
        (None, s) \<Rightarrow> s\<lparr>drains := removeAt k (drains s)\<rparr>
      | (Some d, s) \<Rightarrow> s\<lparr>drains := (drains s)[k := d]\<rparr>)"

definition processDistributionQueue :: "service \<Rightarrow> service" where
  "processDistributionQueue s =
     (if isProcessing s \<or> distributionQueue s = [] then s
      else
        case nextIteration (s\<lparr>isProcessing := True\<rparr>) of
          (None, s1) \<Rightarrow> s1
        | (Some d, s1) \<Rightarrow> s1\<lparr>drains := drains s1 @ [d]\<rparr>)"

definition drainAt :: "nat \<Rightarrow> service \<Rightarrow> drain option" where
  "drainAt k s = (if k < length (drains s) then Some (drains s ! k) else None)"

text \<open>
  The job of drain loop \<open>k\<close> has settled: the loop waits \<^verbatim>\<open>batchDelay\<close> when the queue is
  not empty, and evaluates the loop condition at once when it is.
\<close>

definition jobSettled :: "nat \<Rightarrow> service \<Rightarrow> service" where
  "jobSettled k s =
     (case drainAt k s of
        Some (Processing tk) \<Rightarrow>
          let s1 = s\<lparr>completed := completed s @ [tk]\<rparr>
          in if distributionQueue s1 \<noteq> [] then s1\<lparr>drains := (drains s1)[k := Delaying (batchDelay s1)]\<rparr>
             else suspend k (nextIteration s1)
      | _ \<Rightarrow> s)"

text \<open>The timer of drain loop \<open>k\<close> has fired.\<close>

definition delayElapsed :: "nat \<Rightarrow> service \<Rightarrow> service" where
  "delayElapsed k s =
     (case drainAt k s of
        Some (Delaying d) \<Rightarrow> suspend k (nextIteration s)
      | _ \<Rightarrow> s)"

text \<open>The end of \<^verbatim>\<open>distributeCVToAgencies\<close>: push, and start a drain when none is flagged.\<close>

definition enqueue :: "task \<Rightarrow> service \<Rightarrow> service" where
  "enqueue tk s =
     (let s1 = s\<lparr>distributionQueue := distributionQueue s @ [tk], pushed := pushed s @ [tk]\<rparr>
      in if \<not> isProcessing s1 then processDistributionQueue s1 else s1)"

text \<open>What can happen to the service object, and a run of such events.\<close>

datatype event = Enqueue task | Trigger | JobSettled nat | DelayElapsed nat

fun step :: "service \<Rightarrow> event \<Rightarrow> service" where
  "step s (Enqueue tk) = enqueue tk s"
| "step s Trigger = processDistributionQueue s"
| "step s (JobSettled k) = jobSettled k s"
| "step s (DelayElapsed k) = delayElapsed k s"

definition run :: "event list \<Rightarrow> service \<Rightarrow> service" where
  "run evs s = foldl step s evs"

subsection \<open>\<^verbatim>\<open>distributeCVToAgencies\<close>\<close>

record distribute_result =
  resultSuccess :: bool
  distributed :: nat

definition validCandidate :: "candidate option \<Rightarrow> bool" where
  "validCandidate c =
     (case c of
        None \<Rightarrow> False
      | Some cand \<Rightarrow> (case positions cand of None \<Rightarrow> False | Some ps \<Rightarrow> ps \<noteq> []))"

text \<open>
  \<open>now\<close> is the time of the resolution, \<open>queuedAt\<close> the later time the job is built at.
  Every error is rethrown to the caller.
\<close>

definition distributeCVToAgencies :: "(string \<times> string) list \<Rightarrow> time \<Rightarrow> time \<Rightarrow> candidate option \<Rightarrow> world \<Rightarrow> service \<Rightarrow> error + (distribute_result \<times> service)" where
  "distributeCVToAgencies regionMap now queuedAt candidate w s =
     (if \<not> validCandidate candidate then Inl InvalidCandidate
      else
        let cand = the candidate;
            candidateRegion = extractRegionFromCandidate regionMap cand
        in case getEligibleAgencies now candidateRegion w of
             Inl e \<Rightarrow> Inl e
           | Inr eligibleAgencies \<Rightarrow>
               if eligibleAgencies = [] then Inr (\<lparr>resultSuccess = True, distributed = 0\<rparr>, s)
               else
                 let distributionTask = \<lparr>taskCandidate = cand, taskAgencies = eligibleAgencies,
                       taskTimestamp = queuedAt, taskId = (candidate_id cand, queuedAt)\<rparr>
                 in Inr (\<lparr>resultSuccess = True, distributed = length eligibleAgencies\<rparr>,
                         enqueue distributionTask s))"

section \<open>DistributionMonitor\<close>

subsection \<open>\<^verbatim>\<open>logDistributionAttempt\<close>\<close>

text \<open>\<^verbatim>\<open>Map.set\<close> keeps the place of a key that is there and appends a new one.\<close>

fun mapSet :: "'k \<Rightarrow> 'v \<Rightarrow> ('k \<times> 'v) list \<Rightarrow> ('k \<times> 'v) list" where
  "mapSet k v [] = [(k, v)]"
| "mapSet k v ((k', v') # rest) = (if k' = k then (k, v) # rest else (k', v') # mapSet k v rest)"

definition mapDelete :: "'k \<Rightarrow> ('k \<times> 'v) list \<Rightarrow> ('k \<times> 'v) list" where
  "mapDelete k m = filter (\<lambda>kv. fst kv \<noteq> k) m"

text \<open>
  \<open>key\<close> is the string \<^verbatim>\<open>`${Date.now()}_${Math.random()}`\<close> the call draws, \<open>now\<close> its
  \<^verbatim>\<open>new Date()\<close>, \<open>err\<close> the message of the error passed, if any.
\<close>

definition logDistributionAttempt :: "time \<Rightarrow> string \<Rightarrow> objectId \<Rightarrow> objectId \<Rightarrow> bool \<Rightarrow> string option \<Rightarrow> int \<Rightarrow> world \<Rightarrow> log_entry \<times> world" where
  "logDistributionAttempt now key candId agId succ err procTime w =
     (let logEntry = \<lparr>timestamp = now, candidateId = candId, agencyId = agId, logSuccess = succ,
            logError = err, processingTime = procTime\<rparr>;
          afterSet = mapSet key logEntry (healthChecks w);
          afterClean =
            (if length afterSet > 1000
             then foldl (\<lambda>m k. mapDelete k m) afterSet (slice 0 100 (map fst afterSet))
             else afterSet)
      in (logEntry, w\<lparr>healthChecks := afterClean\<rparr>))"

subsection \<open>\<^verbatim>\<open>getHealthStatus\<close>\<close>

text \<open>
  The rates are quotients of two counters of at most 1000 entries, compared with 0.1 and
  0.9; on such quotients the comparison of the doubles and of the rationals agree, and
  the rates are rationals here. An issue stands for the message the source formats from
  the same number. The rounded rates of the returned \<^verbatim>\<open>metrics\<close> are left out.
\<close>

record alert_thresholds =
  maxFailureRate :: rat
  maxQueueLength :: nat
  maxProcessingTime :: rat
  minSuccessRate :: rat

definition alertThresholds :: alert_thresholds where
  "alertThresholds = \<lparr>maxFailureRate = 1 / 10, maxQueueLength = 500, maxProcessingTime = 30000,
     minSuccessRate = 9 / 10\<rparr>"

datatype issue = HighFailureRate rat | SlowProcessing rat | LowSuccessRate rat

record health =
  status :: string
  totalAttempts :: nat
  successful :: nat
  failed :: nat
  issues :: "issue list"

definition recentLogs :: "time \<Rightarrow> world \<Rightarrow> log_entry list" where
  "recentLogs now w = filter (\<lambda>log. now - timestamp log < 3600000) (map snd (healthChecks w))"

definition successRate :: "log_entry list \<Rightarrow> rat" where
  "successRate logs = of_nat (length (filter logSuccess logs)) / of_nat (length logs)"

definition failureRate :: "log_entry list \<Rightarrow> rat" where
  "failureRate logs =
     of_nat (length logs - length (filter logSuccess logs)) / of_nat (length logs)"

definition avgProcessingTime :: "log_entry list \<Rightarrow> rat" where
  "avgProcessingTime logs = of_int (sum_list (map processingTime logs)) / of_nat (length logs)"

definition getHealthStatus :: "time \<Rightarrow> world \<Rightarrow> health" where
  "getHealthStatus now w =
     (let logs = recentLogs now w
      in if logs = [] then
           \<lparr>status = ''unknown'', totalAttempts = 0, successful = 0, failed = 0, issues = []\<rparr>
         else
           let (status1, issues1) =
                 (if failureRate logs > maxFailureRate alertThresholds
                  then (''warning'', [HighFailureRate (failureRate logs)])
                  else (''healthy'', []));
               (status2, issues2) =
                 (if avgProcessingTime logs > maxProcessingTime alertThresholds
                  then (''warning'', issues1 @ [SlowProcessing (avgProcessingTime logs)])
                  else (status1, issues1));
               (status3, issues3) =
                 (if successRate logs < minSuccessRate alertThresholds
                  then (''critical'', issues2 @ [LowSuccessRate (successRate logs)])
                  else (status2, issues2))
           in \<lparr>status = status3, totalAttempts = length logs,
                successful = length (filter logSuccess logs),
                failed = length logs - length (filter logSuccess logs),
                issues = (if status3 \<noteq> ''healthy'' then issues3 else [])\<rparr>)"

section \<open>Notions for the statements\<close>

text \<open>An agency has a subscription that is valid at \<open>now\<close>.\<close>

definition hasActiveSubscription :: "time \<Rightarrow> world \<Rightarrow> company \<Rightarrow> bool" where
  "hasActiveSubscription now w c =
     list_ex (\<lambda>sb. companyId sb = company_id c \<and> subStatus sb = ''active'' \<and> now < expirationDate sb)
       (subscriptions w)"

text \<open>
  The stored cap of an agency, and the stores the program writes: the schema sets the cap
  to 50 and the settings route only accepts a cap from 1 to 1000, so a cap is unset or
  positive.
\<close>

definition storedCap :: "company \<Rightarrow> int option" where
  "storedCap c = (case distributionSettings c of None \<Rightarrow> None | Some st \<Rightarrow> maxCVsPerDay st)"

definition positiveCap :: "company \<Rightarrow> bool" where
  "positiveCap c = (case storedCap c of None \<Rightarrow> True | Some m \<Rightarrow> 0 < m)"

text \<open>
  Eligibility in the words of the specification: the cap "default 50 if unset"; the
  effective count, 0 "if \<^verbatim>\<open>lastCountReset\<close> is older than 24h", the stored \<^verbatim>\<open>dailyCount\<close>
  otherwise, where an unset timestamp reads as the epoch and an unset counter as 0; and
  the rule "drop agencies where effective count \<open>\<ge>\<close> maxPerDay".
\<close>

definition claimedMaxPerDay :: "company \<Rightarrow> int" where
  "claimedMaxPerDay c = (case storedCap c of None \<Rightarrow> 50 | Some m \<Rightarrow> m)"

definition claimedEffectiveCount :: "time \<Rightarrow> company \<Rightarrow> int" where
  "claimedEffectiveCount now c =
     (case distributionSettings c of
        None \<Rightarrow> 0
      | Some st \<Rightarrow>
          if (case lastCountReset st of None \<Rightarrow> 0 | Some t \<Rightarrow> t) < now - 24 * 60 * 60 * 1000 then 0
          else (case dailyCount st of None \<Rightarrow> 0 | Some n \<Rightarrow> n))"

definition claimedExcluded :: "time \<Rightarrow> company \<Rightarrow> bool" where
  "claimedExcluded now c = (claimedMaxPerDay c \<le> claimedEffectiveCount now c)"

text \<open>A call of \<^verbatim>\<open>logDistributionAttempt\<close> with what it draws, and a sequence of calls.\<close>

record attempt =
  atNow :: time
  atKey :: string
  atCandidate :: objectId
  atAgency :: objectId
  atSuccess :: bool
  atError :: "string option"
  atProcessingTime :: int

definition entryOf :: "attempt \<Rightarrow> string \<times> log_entry" where
  "entryOf a = (atKey a, \<lparr>timestamp = atNow a, candidateId = atCandidate a, agencyId = atAgency a,
      logSuccess = atSuccess a, logError = atError a, processingTime = atProcessingTime a\<rparr>)"

definition logAttempt :: "world \<Rightarrow> attempt \<Rightarrow> world" where
  "logAttempt w a = snd (logDistributionAttempt (atNow a) (atKey a) (atCandidate a) (atAgency a)
      (atSuccess a) (atError a) (atProcessingTime a) w)"

definition logAttempts :: "attempt list \<Rightarrow> world \<Rightarrow> world" where
  "logAttempts as w = foldl logAttempt w as"

text \<open>The three conditions of the health check, and the order of the statuses.\<close>

definition highFailure :: "time \<Rightarrow> world \<Rightarrow> bool" where
  "highFailure now w = (failureRate (recentLogs now w) > 1 / 10)"

definition slowProcessing :: "time \<Rightarrow> world \<Rightarrow> bool" where
  "slowProcessing now w = (avgProcessingTime (recentLogs now w) > 30000)"

definition lowSuccess :: "time \<Rightarrow> world \<Rightarrow> bool" where
  "lowSuccess now w = (successRate (recentLogs now w) < 9 / 10)"

definition severity :: "string \<Rightarrow> nat" where
  "severity s = (if s = ''critical'' then 2 else if s = ''warning'' then 1 else 0)"

fun mostSevere :: "string list \<Rightarrow> string" where
  "mostSevere [] = ''healthy''"
| "mostSevere (s # rest) = (if severity (mostSevere rest) < severity s then s else mostSevere rest)"

text \<open>Whether a settled promise is fulfilled, and whether the send to an agency is.\<close>

definition isOK :: "error + bool \<Rightarrow> bool" where
  "isOK r = (case r of Inr v \<Rightarrow> True | Inl e \<Rightarrow> False)"

definition sendOK :: "(objectId \<Rightarrow> string \<Rightarrow> bool) \<Rightarrow> candidate \<Rightarrow> eligible \<Rightarrow> bool" where
  "sendOK chan cand ag = isOK (sendCVToAgency chan cand ag)"

definition agencyIds :: "eligible list \<Rightarrow> objectId list" where
  "agencyIds ags = map (\<lambda>ag. company_id (agency ag)) ags"

text \<open>What \<^verbatim>\<open>updateDailyCount\<close> does to the document of its agency.\<close>

definition quotaUpdate :: "time \<Rightarrow> company \<Rightarrow> company" where
  "quotaUpdate now c = incDailyCount (if lastCountResetLt (now - oneDayMs) c then setCountReset now c else c)"

text \<open>
  The property that every attempt of a batch leaves one outcome in the monitor's buffer.
\<close>

definition claimedEmitted :: "world \<Rightarrow> eligible list \<Rightarrow> world \<Rightarrow> bool" where
  "claimedEmitted w batch w' = (length (healthChecks w') = length (healthChecks w) + length batch)"

text \<open>
  The run of a scheduled batch, whose counters depend on the channel only; the property
  that a batch is dispatched no earlier than \<open>d\<close> after the one before it has settled; and
  the number of batches as a division.
\<close>

definition runOf :: "(objectId \<Rightarrow> string \<Rightarrow> bool) \<Rightarrow> (objectId \<Rightarrow> nat) \<Rightarrow> candidate \<Rightarrow> time \<times> eligible list \<Rightarrow> batch_run" where
  "runOf chan lat cand p =
     \<lparr>dispatchedAt = fst p, settledAt = settleTime lat (fst p) (snd p), batchAgencies = snd p,
      batchResult = \<lparr>success = length (filter (sendOK chan cand) (snd p)),
                     errors = length (filter (\<lambda>ag. \<not> sendOK chan cand ag) (snd p))\<rparr>\<rparr>"

fun batchesInOrder :: "int \<Rightarrow> batch_run list \<Rightarrow> bool" where
  "batchesInOrder d (a # b # rest) = (settledAt a + d \<le> dispatchedAt b \<and> batchesInOrder d (b # rest))"
| "batchesInOrder d rest = True"

definition ceilDiv :: "nat \<Rightarrow> nat \<Rightarrow> nat" where
  "ceilDiv n m = (n + m - 1) div m"

text \<open>The job a resolution with a result that is not empty pushes.\<close>

definition taskOf :: "candidate \<Rightarrow> eligible list \<Rightarrow> time \<Rightarrow> task" where
  "taskOf cand ags queuedAt = \<lparr>taskCandidate = cand, taskAgencies = ags, taskTimestamp = queuedAt,
     taskId = (candidate_id cand, queuedAt)\<rparr>"

text \<open>
  The jobs in flight, and the invariant of the service object: at most one drain loop,
  flagged by \<^verbatim>\<open>isProcessing\<close>; the jobs pushed are those started and then those queued,
  in this order; the jobs started are those settled and then the one in flight; a loop
  that waits does so for \<^verbatim>\<open>batchDelay\<close>, with a job queued.
\<close>

fun inFlightOf :: "drain \<Rightarrow> task list" where
  "inFlightOf (Processing tk) = [tk]"
| "inFlightOf (Delaying d) = []"

definition inFlight :: "service \<Rightarrow> task list" where
  "inFlight s = concat (map inFlightOf (drains s))"

fun waitingOk :: "service \<Rightarrow> drain \<Rightarrow> bool" where
  "waitingOk s (Processing tk) = True"
| "waitingOk s (Delaying d) = (distributionQueue s \<noteq> [] \<and> d = batchDelay s)"

definition drainInv :: "service \<Rightarrow> bool" where
  "drainInv s =
     (length (drains s) \<le> 1 \<and> (isProcessing s = (drains s \<noteq> [])) \<and>
      pushed s = started s @ distributionQueue s \<and>
      started s = completed s @ inFlight s \<and>
      list_all (waitingOk s) (drains s))"

section \<open>Concrete inputs\<close>

text \<open>
  An agency that covers the south, with one active and one inactive address, at its cap
  of 50 with a counter last reset at the epoch, and its subscription.
\<close>

definition agencyStale :: company where
  "agencyStale = \<lparr>company_id = 7, companyName = ''Acme'', isRecruitmentAgency = True,
     isRecruitmentAccess = ''approved'', isActive = True,
     recruitmentEmails = [\<lparr>email = ''hr@acme.example'', emailIsActive = True\<rparr>,
                          \<lparr>email = ''old@acme.example'', emailIsActive = False\<rparr>],
     supportRegions = [''south''],
     distributionSettings =
       Some \<lparr>maxCVsPerDay = Some 50, dailyCount = Some 50, lastCountReset = Some 0\<rparr>\<rparr>"

definition subscriptionOf :: "objectId \<Rightarrow> subscription" where
  "subscriptionOf cid = \<lparr>companyId = cid, subStatus = ''active'', expirationDate = 900000000\<rparr>"

definition worldStale :: world where
  "worldStale = \<lparr>companies = [agencyStale], subscriptions = [subscriptionOf 7],
     dbConnected = True, healthChecks = []\<rparr>"

text \<open>An agency below a cap that is stored as 0, its counter reset a second ago.\<close>

definition agencyZeroCap :: company where
  "agencyZeroCap = agencyStale\<lparr>company_id := 8, distributionSettings :=
       Some \<lparr>maxCVsPerDay = Some 0, dailyCount = Some 3, lastCountReset = Some 199999000\<rparr>\<rparr>"

definition worldZeroCap :: world where
  "worldZeroCap = \<lparr>companies = [agencyZeroCap], subscriptions = [subscriptionOf 8],
     dbConnected = True, healthChecks = []\<rparr>"

text \<open>1001 calls of the monitor with keys of different lengths.\<close>

definition attemptNo :: "nat \<Rightarrow> attempt" where
  "attemptNo i = \<lparr>atNow = int i, atKey = replicate i (CHR ''k''), atCandidate = 1, atAgency = 7,
     atSuccess = True, atError = None, atProcessingTime = 5\<rparr>"

definition manyAttempts :: "attempt list" where
  "manyAttempts = map attemptNo [0..<1001]"

text \<open>A monitor that holds four outcomes of the last five seconds, one of them a failure.\<close>

definition logOf :: "time \<Rightarrow> bool \<Rightarrow> int \<Rightarrow> log_entry" where
  "logOf t ok pt = \<lparr>timestamp = t, candidateId = 1, agencyId = 7, logSuccess = ok,
     logError = (if ok then None else Some ''send failed''), processingTime = pt\<rparr>"

definition worldFourLogs :: world where
  "worldFourLogs = \<lparr>companies = [agencyStale], subscriptions = [subscriptionOf 7],
     dbConnected = True,
     healthChecks = [(''k0'', logOf 1000 True 5), (''k1'', logOf 2000 False 7),
                     (''k2'', logOf 3000 True 5), (''k3'', logOf 4000 True 7)]\<rparr>"

text \<open>
  A monitor that holds one failure, recent at time 5000 and two hours old at time
  7201000, and one that holds two slow successes.
\<close>

definition worldOldLog :: world where
  "worldOldLog = \<lparr>companies = [agencyStale], subscriptions = [subscriptionOf 7],
     dbConnected = True, healthChecks = [(''k0'', logOf 1000 False 5)]\<rparr>"

definition worldSlowLogs :: world where
  "worldSlowLogs = \<lparr>companies = [agencyStale], subscriptions = [subscriptionOf 7],
     dbConnected = True,
     healthChecks = [(''k0'', logOf 1000 True 40000), (''k1'', logOf 2000 True 30000)]\<rparr>"

text \<open>
  A candidate of the south and one of the north; a channel that delivers everything;
  sends that take two seconds; 101 agencies in one job.
\<close>

definition candSouth :: candidate where
  "candSouth = \<lparr>candidate_id = 1, positions = Some [\<lparr>title = ''Welder'', experience = ''3 years''\<rparr>],
     location = Some ''South'', address = None, city = None\<rparr>"

definition candNorth :: candidate where
  "candNorth = candSouth\<lparr>location := Some ''north''\<rparr>"

definition chanAll :: "objectId \<Rightarrow> string \<Rightarrow> bool" where
  "chanAll a e = True"

definition latTwoSeconds :: "objectId \<Rightarrow> nat" where
  "latTwoSeconds a = 2000"

definition agencyNo :: "nat \<Rightarrow> company" where
  "agencyNo i = agencyStale\<lparr>company_id := i\<rparr>"

definition task101 :: task where
  "task101 = \<lparr>taskCandidate = candSouth,
     taskAgencies = map (\<lambda>i. \<lparr>agency = agencyNo i, currentDailyCount = 0\<rparr>) [0..<101],
     taskTimestamp = 200000000, taskId = (1, 200000000)\<rparr>"

definition world101 :: world where
  "world101 = \<lparr>companies = map agencyNo [0..<101], subscriptions = map subscriptionOf [0..<101],
     dbConnected = True, healthChecks = []\<rparr>"

text \<open>
  An agency with a fresh counter of 3, a channel that only delivers to it, and two jobs
  for the stale agency, queued one after the other on a new service.
\<close>

definition eligStale :: eligible where
  "eligStale = \<lparr>agency = agencyStale, currentDailyCount = 0\<rparr>"

definition agencyFresh :: company where
  "agencyFresh = agencyStale\<lparr>company_id := 5, distributionSettings :=
       Some \<lparr>maxCVsPerDay = Some 50, dailyCount = Some 3, lastCountReset = Some 199999000\<rparr>\<rparr>"

definition eligFresh :: eligible where
  "eligFresh = \<lparr>agency = agencyFresh, currentDailyCount = 3\<rparr>"

definition worldTwo :: world where
  "worldTwo = \<lparr>companies = [agencyStale, agencyFresh], subscriptions = [subscriptionOf 7, subscriptionOf 5],
     dbConnected = True, healthChecks = []\<rparr>"

definition chanOnlyFresh :: "objectId \<Rightarrow> string \<Rightarrow> bool" where
  "chanOnlyFresh a e = (a = 5)"

definition jobA :: task where
  "jobA = \<lparr>taskCandidate = candSouth, taskAgencies = [eligStale], taskTimestamp = 200000000,
     taskId = (1, 200000000)\<rparr>"

definition jobB :: task where
  "jobB = \<lparr>taskCandidate = candSouth, taskAgencies = [eligStale], taskTimestamp = 200000050,
     taskId = (1, 200000050)\<rparr>"

definition twoQueued :: service where
  "twoQueued = run [Enqueue jobA, Enqueue jobB] newService"

section \<open>The quota update\<close>

lemma findById_findOneAndUpdate:
  assumes "\<And>c. company_id (f c) = company_id c"
  shows "findById cid (findOneAndUpdate (\<lambda>c. company_id c = cid \<and> q c) f cs) =
     (case findById cid cs of None \<Rightarrow> None | Some c \<Rightarrow> if q c then Some (f c) else Some c)"
  using assms by (induction cs) auto

lemma findById_findOneAndUpdate_other:
  assumes "\<And>c. company_id (f c) = company_id c" and "cid' \<noteq> cid"
  shows "findById cid' (findOneAndUpdate (\<lambda>c. company_id c = cid \<and> q c) f cs) = findById cid' cs"
  using assms by (induction cs) auto

lemma company_id_setCountReset [simp]: "company_id (setCountReset now c) = company_id c"
  by (simp add: setCountReset_def Let_def)

lemma company_id_incDailyCount [simp]: "company_id (incDailyCount c) = company_id c"
  by (simp add: incDailyCount_def Let_def)

text \<open>What one call does to the document of its agency, when the store answers.\<close>

lemma findById_updateDailyCount:
  assumes "dbConnected w"
  shows "findById cid (companies (updateDailyCount now cid w)) =
     (case findById cid (companies w) of
        None \<Rightarrow> None
      | Some c \<Rightarrow> Some (incDailyCount
          (if lastCountResetLt (now - oneDayMs) c then setCountReset now c else c)))"
proof -
  let ?q = "lastCountResetLt (now - oneDayMs)"
  let ?mid = "findOneAndUpdate (\<lambda>c. company_id c = cid \<and> ?q c) (setCountReset now) (companies w)"
  have mid: "findById cid ?mid =
      (case findById cid (companies w) of
         None \<Rightarrow> None | Some c \<Rightarrow> if ?q c then Some (setCountReset now c) else Some c)"
    by (rule findById_findOneAndUpdate) simp
  have "findById cid (findOneAndUpdate (\<lambda>c. company_id c = cid \<and> True) incDailyCount ?mid) =
      (case findById cid ?mid of
         None \<Rightarrow> None | Some c \<Rightarrow> if True then Some (incDailyCount c) else Some c)"
    by (rule findById_findOneAndUpdate) simp
  with mid assms show ?thesis
    by (simp add: updateDailyCount_def Let_def split: option.splits)
qed

lemma findById_updateDailyCount_other:
  assumes "cid' \<noteq> cid"
  shows "findById cid' (companies (updateDailyCount now cid w)) = findById cid' (companies w)"
proof (cases "dbConnected w")
  case False
  then show ?thesis by (simp add: updateDailyCount_def)
next
  case True
  let ?mid = "findOneAndUpdate (\<lambda>c. company_id c = cid \<and> lastCountResetLt (now - oneDayMs) c)
      (setCountReset now) (companies w)"
  have "findById cid' (findOneAndUpdate (\<lambda>c. company_id c = cid \<and> True) incDailyCount ?mid) =
      findById cid' ?mid"
    using assms by (intro findById_findOneAndUpdate_other) simp_all
  moreover have "findById cid' ?mid = findById cid' (companies w)"
    using assms by (intro findById_findOneAndUpdate_other) simp_all
  ultimately show ?thesis
    using True by (simp add: updateDailyCount_def Let_def)
qed

lemma updateDailyCount_fresh:
  assumes "dbConnected w" and "findById cid (companies w) = Some c"
    and "\<not> lastCountResetLt (now - oneDayMs) c"
  shows "storedDailyCount cid (updateDailyCount now cid w) =
      Some ((case storedDailyCount cid w of None \<Rightarrow> 0 | Some n \<Rightarrow> n) + 1)"
    and "storedLastCountReset cid (updateDailyCount now cid w) = storedLastCountReset cid w"
  using assms findById_updateDailyCount [OF assms(1), of cid now]
  by (auto simp: storedDailyCount_def storedLastCountReset_def incDailyCount_def emptySettings_def
      split: option.splits)

lemma updateDailyCount_stale:
  assumes "dbConnected w" and "findById cid (companies w) = Some c"
    and "lastCountResetLt (now - oneDayMs) c"
  shows "storedDailyCount cid (updateDailyCount now cid w) = Some 2"
    and "storedLastCountReset cid (updateDailyCount now cid w) = Some now"
  using assms findById_updateDailyCount [OF assms(1), of cid now]
  by (auto simp: storedDailyCount_def storedLastCountReset_def incDailyCount_def setCountReset_def
      emptySettings_def split: option.splits)

text \<open>
  C1. The claim: after a successful delivery to an agency whose \<^verbatim>\<open>lastCountReset\<close> is more
  than 24 hours old, \<^verbatim>\<open>updateDailyCount\<close> leaves \<^verbatim>\<open>dailyCount\<close> at exactly 1 and
  \<^verbatim>\<open>lastCountReset\<close> at the current time. The source resets the counter to 1 and then
  runs the increment it announces with "If not reset, just increment" without a condition:
  at time 200000000 the agency with a counter of 50 last reset at the epoch ends with a
  counter of 2, not 1. The timestamp is set to the current time as claimed.
\<close>

theorem updateDailyCount_stale_counts_two:
  "lastCountResetLt (200000000 - oneDayMs) agencyStale \<and>
   storedDailyCount 7 worldStale = Some 50 \<and>
   storedDailyCount 7 (updateDailyCount 200000000 7 worldStale) = Some 2 \<and>
   storedLastCountReset 7 (updateDailyCount 200000000 7 worldStale) = Some 200000000"
  by (simp add: lastCountResetLt_def agencyStale_def worldStale_def oneDayMs_def
      storedDailyCount_def storedLastCountReset_def updateDailyCount_def setCountReset_def
      incDailyCount_def)

section \<open>Eligibility\<close>

lemma eligibleLoop_filter:
  "eligibleLoop now act cs =
     map (\<lambda>c. \<lparr>agency = c, currentDailyCount = effectiveCount now c\<rparr>)
       (filter (\<lambda>c. company_id c \<in> set act \<and> effectiveCount now c < maxDaily c) cs)"
  by (induction cs) auto

lemma activeCompanyIds_iff:
  assumes "company_id c \<in> set ids"
  shows "company_id c \<in> set (map companyId (filter (subscriptionQuery ids now) (subscriptions w)))
     \<longleftrightarrow> hasActiveSubscription now w c"
  using assms
  by (fastforce simp: hasActiveSubscription_def subscriptionQuery_def list_ex_iff image_iff)

lemma getEligibleAgencies_filter:
  assumes "dbConnected w"
  shows "getEligibleAgencies now region w =
     Inr (map (\<lambda>c. \<lparr>agency = c, currentDailyCount = effectiveCount now c\<rparr>)
       (filter (\<lambda>c. agencyQuery region c \<and> hasActiveSubscription now w c \<and>
                     effectiveCount now c < maxDaily c) (companies w)))"
proof -
  let ?ags = "filter (agencyQuery region) (companies w)"
  let ?ids = "map company_id ?ags"
  let ?act = "map companyId (filter (subscriptionQuery ?ids now) (subscriptions w))"
  have "filter (\<lambda>c. company_id c \<in> set ?act \<and> effectiveCount now c < maxDaily c) ?ags =
        filter (\<lambda>c. hasActiveSubscription now w c \<and> effectiveCount now c < maxDaily c) ?ags"
  proof (rule filter_cong [OF refl])
    fix c assume "c \<in> set ?ags"
    then have "company_id c \<in> set ?ids" by (auto simp del: set_filter)
    from activeCompanyIds_iff [OF this, of now w]
    show "(company_id c \<in> set ?act \<and> effectiveCount now c < maxDaily c) =
          (hasActiveSubscription now w c \<and> effectiveCount now c < maxDaily c)"
      by simp
  qed
  then show ?thesis
    using assms
    by (simp add: getEligibleAgencies_def Let_def eligibleLoop_filter conj_commute
        conj_left_commute cong: conj_cong)
qed

lemma effectiveCount_claimed: "effectiveCount now c = claimedEffectiveCount now c"
  by (simp add: effectiveCount_def claimedEffectiveCount_def lastReset_def storedCount_def
      settingsOf_def emptySettings_def oneDayMs_def split: option.splits)

lemma maxDaily_claimed: "positiveCap c \<Longrightarrow> maxDaily c = claimedMaxPerDay c"
  by (auto simp: maxDaily_def claimedMaxPerDay_def positiveCap_def storedCap_def settingsOf_def
      emptySettings_def split: option.splits)

lemma claimedMaxPerDay_pos: "positiveCap c \<Longrightarrow> 0 < claimedMaxPerDay c"
  by (auto simp: claimedMaxPerDay_def positiveCap_def split: option.splits)

text \<open>
  C5. On a store that answers and holds caps that are unset or positive, resolution
  returns, in storage order, exactly the agencies that match the query, have a valid
  subscription and are not excluded, each with its effective count beside it: the
  effective count is 0 when \<^verbatim>\<open>lastCountReset\<close> is more than 24 hours old and the stored
  \<^verbatim>\<open>dailyCount\<close> otherwise, and an agency is excluded exactly when its effective count is
  at least its cap, 50 when unset. So an agency at its cap with a fresh reset is not in
  the result, and an agency with a stale reset is, whatever its stored count. Resolution
  only reads: it returns a list and no store.
\<close>

theorem getEligibleAgencies_effective_count:
  assumes "dbConnected w" and "\<forall>c\<in>set (companies w). positiveCap c"
  shows "getEligibleAgencies now region w =
       Inr (map (\<lambda>c. \<lparr>agency = c, currentDailyCount = claimedEffectiveCount now c\<rparr>)
         (filter (\<lambda>c. (isRecruitmentAgency c \<and> isRecruitmentAccess c = ''approved'' \<and> isActive c \<and>
                        recruitmentEmails c \<noteq> [] \<and> region \<in> set (supportRegions c)) \<and>
                       hasActiveSubscription now w c \<and> \<not> claimedExcluded now c) (companies w))) \<and>
     (\<forall>c\<in>set (companies w). \<forall>st t n.
        distributionSettings c = Some st \<and> lastCountReset st = Some t \<and> dailyCount st = Some n \<and>
        (isRecruitmentAgency c \<and> isRecruitmentAccess c = ''approved'' \<and> isActive c \<and>
         recruitmentEmails c \<noteq> [] \<and> region \<in> set (supportRegions c)) \<and>
        hasActiveSubscription now w c \<longrightarrow>
          (now - 24 * 60 * 60 * 1000 \<le> t \<and> claimedMaxPerDay c \<le> n \<longrightarrow>
             c \<notin> agency ` set (projr (getEligibleAgencies now region w))) \<and>
          (t < now - 24 * 60 * 60 * 1000 \<longrightarrow>
             c \<in> agency ` set (projr (getEligibleAgencies now region w))))"
proof -
  have "filter (\<lambda>c. agencyQuery region c \<and> hasActiveSubscription now w c \<and>
                     effectiveCount now c < maxDaily c) (companies w) =
        filter (\<lambda>c. (isRecruitmentAgency c \<and> isRecruitmentAccess c = ''approved'' \<and> isActive c \<and>
                        recruitmentEmails c \<noteq> [] \<and> region \<in> set (supportRegions c)) \<and>
                       hasActiveSubscription now w c \<and> \<not> claimedExcluded now c) (companies w)"
  proof (rule filter_cong [OF refl])
    fix c assume "c \<in> set (companies w)"
    with assms(2) have "positiveCap c" by blast
    then show "(agencyQuery region c \<and> hasActiveSubscription now w c \<and>
                     effectiveCount now c < maxDaily c) =
       ((isRecruitmentAgency c \<and> isRecruitmentAccess c = ''approved'' \<and> isActive c \<and>
                        recruitmentEmails c \<noteq> [] \<and> region \<in> set (supportRegions c)) \<and>
                       hasActiveSubscription now w c \<and> \<not> claimedExcluded now c)"
      by (simp add: agencyQuery_def claimedExcluded_def effectiveCount_claimed maxDaily_claimed
          not_le)
  qed
  then have first: "getEligibleAgencies now region w =
       Inr (map (\<lambda>c. \<lparr>agency = c, currentDailyCount = claimedEffectiveCount now c\<rparr>)
         (filter (\<lambda>c. (isRecruitmentAgency c \<and> isRecruitmentAccess c = ''approved'' \<and> isActive c \<and>
                        recruitmentEmails c \<noteq> [] \<and> region \<in> set (supportRegions c)) \<and>
                       hasActiveSubscription now w c \<and> \<not> claimedExcluded now c) (companies w)))"
    by (simp add: getEligibleAgencies_filter [OF assms(1)] effectiveCount_claimed)
  have second: "\<forall>c\<in>set (companies w). \<forall>st t n.
        distributionSettings c = Some st \<and> lastCountReset st = Some t \<and> dailyCount st = Some n \<and>
        (isRecruitmentAgency c \<and> isRecruitmentAccess c = ''approved'' \<and> isActive c \<and>
         recruitmentEmails c \<noteq> [] \<and> region \<in> set (supportRegions c)) \<and>
        hasActiveSubscription now w c \<longrightarrow>
          (now - 24 * 60 * 60 * 1000 \<le> t \<and> claimedMaxPerDay c \<le> n \<longrightarrow>
             c \<notin> agency ` set (projr (getEligibleAgencies now region w))) \<and>
          (t < now - 24 * 60 * 60 * 1000 \<longrightarrow>
             c \<in> agency ` set (projr (getEligibleAgencies now region w)))"
  proof (intro ballI allI impI)
    fix c st t n
    assume c: "c \<in> set (companies w)"
      and s: "distributionSettings c = Some st \<and> lastCountReset st = Some t \<and> dailyCount st = Some n \<and>
        (isRecruitmentAgency c \<and> isRecruitmentAccess c = ''approved'' \<and> isActive c \<and>
         recruitmentEmails c \<noteq> [] \<and> region \<in> set (supportRegions c)) \<and>
        hasActiveSubscription now w c"
    from c assms(2) have pos: "0 < claimedMaxPerDay c" by (simp add: claimedMaxPerDay_pos)
    have mem: "(c \<in> agency ` set (projr (getEligibleAgencies now region w))) = (\<not> claimedExcluded now c)"
      using c s by (simp add: first image_iff comp_def) 
    from pos s have "(now - 24 * 60 * 60 * 1000 \<le> t \<and> claimedMaxPerDay c \<le> n \<longrightarrow> claimedExcluded now c) \<and>
          (t < now - 24 * 60 * 60 * 1000 \<longrightarrow> \<not> claimedExcluded now c)"
      by (auto simp: claimedExcluded_def claimedEffectiveCount_def)
    then show "(now - 24 * 60 * 60 * 1000 \<le> t \<and> claimedMaxPerDay c \<le> n \<longrightarrow>
             c \<notin> agency ` set (projr (getEligibleAgencies now region w))) \<and>
          (t < now - 24 * 60 * 60 * 1000 \<longrightarrow>
             c \<in> agency ` set (projr (getEligibleAgencies now region w)))"
      by (simp add: mem)
  qed
  from first second show ?thesis by blast
qed

theorem getEligibleAgencies_effective_count_witness:
  "dbConnected worldStale \<and> positiveCap agencyStale \<and> claimedMaxPerDay agencyStale = 50 \<and>
   claimedEffectiveCount 200000000 agencyStale = 0 \<and> \<not> claimedExcluded 200000000 agencyStale \<and>
   getEligibleAgencies 200000000 ''south'' worldStale =
     Inr [\<lparr>agency = agencyStale, currentDailyCount = 0\<rparr>] \<and>
   claimedEffectiveCount 100000 agencyStale = 50 \<and> claimedExcluded 100000 agencyStale \<and>
   getEligibleAgencies 100000 ''south'' worldStale = Inr []"
proof -
  have up: "dbConnected worldStale" by (simp add: worldStale_def)
  have pc: "positiveCap agencyStale" by (simp add: positiveCap_def storedCap_def agencyStale_def)
  have caps: "\<forall>c\<in>set (companies worldStale). positiveCap c" using pc by (simp add: worldStale_def)
  have sub: "hasActiveSubscription t worldStale agencyStale = (t < 900000000)" for t
    by (simp add: hasActiveSubscription_def worldStale_def subscriptionOf_def agencyStale_def)
  have q: "isRecruitmentAgency agencyStale \<and> isRecruitmentAccess agencyStale = ''approved'' \<and>
      isActive agencyStale \<and> recruitmentEmails agencyStale \<noteq> [] \<and>
      ''south'' \<in> set (supportRegions agencyStale)"
    by (simp add: agencyStale_def)
  have cs: "companies worldStale = [agencyStale]" by (simp add: worldStale_def)
  have md: "claimedMaxPerDay agencyStale = 50"
    by (simp add: claimedMaxPerDay_def storedCap_def agencyStale_def)
  have e1: "claimedEffectiveCount 200000000 agencyStale = 0"
    and e2: "claimedEffectiveCount 100000 agencyStale = 50"
    by (simp_all add: claimedEffectiveCount_def agencyStale_def)
  have x1: "\<not> claimedExcluded 200000000 agencyStale" and x2: "claimedExcluded 100000 agencyStale"
    by (simp_all add: claimedExcluded_def md e1 e2)
  from getEligibleAgencies_effective_count [OF up caps, of 200000000 "''south''"]
  have g1: "getEligibleAgencies 200000000 ''south'' worldStale =
     Inr [\<lparr>agency = agencyStale, currentDailyCount = 0\<rparr>]"
    using q by (simp add: cs sub x1 e1)
  from getEligibleAgencies_effective_count [OF up caps, of 100000 "''south''"]
  have g2: "getEligibleAgencies 100000 ''south'' worldStale = Inr []"
    by (simp add: cs x2)
  from up pc md e1 x1 g1 e2 x2 g2 show ?thesis by blast
qed

text \<open>
  A cap of 0, which the settings route refuses, would be read as 50 by
  \<^verbatim>\<open>settings.maxCVsPerDay || 50\<close>.
\<close>

lemma zero_cap_reads_as_fifty:
  "\<not> positiveCap agencyZeroCap \<and> claimedExcluded 200000000 agencyZeroCap \<and>
   getEligibleAgencies 200000000 ''south'' worldZeroCap =
     Inr [\<lparr>agency = agencyZeroCap, currentDailyCount = 3\<rparr>]"
  by (simp add: positiveCap_def storedCap_def claimedExcluded_def claimedMaxPerDay_def
      claimedEffectiveCount_def effectiveCount_def lastReset_def
      storedCount_def settingsOf_def agencyZeroCap_def agencyStale_def worldZeroCap_def
      subscriptionOf_def getEligibleAgencies_def agencyQuery_def subscriptionQuery_def
      maxDaily_def oneDayMs_def)

section \<open>The monitor's buffer\<close>

lemma map_fst_mapSet:
  "map fst (mapSet k v m) = (if k \<in> set (map fst m) then map fst m else map fst m @ [k])"
  by (induction m) (force+)

lemma mapSet_fresh: "k \<notin> set (map fst m) \<Longrightarrow> mapSet k v m = m @ [(k, v)]"
  by (induction m) auto

lemma length_mapSet_le: "length (mapSet k v m) \<le> Suc (length m)"
  by (induction m) auto

lemma distinct_mapSet: "distinct (map fst m) \<Longrightarrow> distinct (map fst (mapSet k v m))"
  by (simp add: map_fst_mapSet)

lemma foldl_mapDelete: "foldl (\<lambda>m k. mapDelete k m) m ks = filter (\<lambda>kv. fst kv \<notin> set ks) m"
  by (induction ks arbitrary: m) (auto simp: mapDelete_def intro: filter_cong)

lemma filter_notin_take:
  "distinct (map fst m) \<Longrightarrow> filter (\<lambda>kv. fst kv \<notin> set (take n (map fst m))) m = drop n m"
proof (induction m arbitrary: n)
  case Nil
  then show ?case by simp
next
  case (Cons x xs)
  show ?case
  proof (cases n)
    case 0
    then show ?thesis by simp
  next
    case (Suc n')
    have "filter (\<lambda>kv. fst kv \<notin> set (take n (map fst (x # xs)))) xs =
          filter (\<lambda>kv. fst kv \<notin> set (take n' (map fst xs))) xs"
      using Cons.prems Suc by (intro filter_cong) (auto simp: image_iff)
    with Cons Suc show ?thesis by simp
  qed
qed

lemma clean_oldest:
  assumes "distinct (map fst m)"
  shows "foldl (\<lambda>m k. mapDelete k m) m (slice 0 100 (map fst m)) = drop 100 m"
  using filter_notin_take [OF assms, of 100] by (simp add: foldl_mapDelete slice_def)

lemma healthChecks_logDistributionAttempt:
  assumes "distinct (map fst (healthChecks w))"
  shows "healthChecks (snd (logDistributionAttempt now key cand ag succ err pt w)) =
     (let m = mapSet key \<lparr>timestamp = now, candidateId = cand, agencyId = ag, logSuccess = succ,
                 logError = err, processingTime = pt\<rparr> (healthChecks w)
      in if length m > 1000 then drop 100 m else m)"
  using clean_oldest [OF distinct_mapSet [OF assms]]
  by (simp add: logDistributionAttempt_def Let_def)

lemma healthChecks_logAttempt:
  assumes "distinct (map fst (healthChecks w))"
  shows "healthChecks (logAttempt w a) =
     (let m = mapSet (fst (entryOf a)) (snd (entryOf a)) (healthChecks w)
      in if length m > 1000 then drop 100 m else m)"
  using healthChecks_logDistributionAttempt [OF assms]
  by (simp add: logAttempt_def entryOf_def)

lemma logAttempts_snoc: "logAttempts (as @ [a]) w = logAttempt (logAttempts as w) a"
  by (simp add: logAttempts_def)

lemma logAttempts_below_capacity:
  assumes "healthChecks w = []" and "distinct (map atKey as)" and "length as \<le> 1000"
  shows "healthChecks (logAttempts as w) = map entryOf as"
  using assms(2,3)
proof (induction as rule: rev_induct)
  case Nil
  then show ?case using assms(1) by (simp add: logAttempts_def)
next
  case (snoc a as)
  then have ih: "healthChecks (logAttempts as w) = map entryOf as" by simp
  have keys: "map (fst \<circ> entryOf) as = map atKey as" by (simp add: entryOf_def)
  have d: "distinct (map fst (healthChecks (logAttempts as w)))"
    using snoc.prems by (simp add: ih keys)
  have fresh: "fst (entryOf a) \<notin> set (map fst (map entryOf as))"
    using snoc.prems by (simp add: keys) (simp add: entryOf_def)
  show ?case
    using snoc.prems healthChecks_logAttempt [OF d, of a] mapSet_fresh [OF fresh]
    by (simp add: logAttempts_snoc ih Let_def)
qed

lemma logAttempts_capacity_plus_one:
  assumes "healthChecks w = []" and "distinct (map atKey (as @ [a]))" and "length as = 1000"
  shows "healthChecks (logAttempts (as @ [a]) w) = drop 100 (map entryOf (as @ [a]))"
proof -
  have ih: "healthChecks (logAttempts as w) = map entryOf as"
    using assms by (intro logAttempts_below_capacity) simp_all
  have keys: "map (fst \<circ> entryOf) as = map atKey as" by (simp add: entryOf_def)
  have d: "distinct (map fst (healthChecks (logAttempts as w)))"
    using assms by (simp add: ih keys)
  have fresh: "fst (entryOf a) \<notin> set (map fst (map entryOf as))"
    using assms by (simp add: keys) (simp add: entryOf_def)
  show ?thesis
    using assms healthChecks_logAttempt [OF d, of a] mapSet_fresh [OF fresh]
    by (simp add: logAttempts_snoc ih Let_def)
qed

lemma logAttempt_invariant:
  assumes "distinct (map fst (healthChecks w))" and "length (healthChecks w) \<le> 1000"
  shows "distinct (map fst (healthChecks (logAttempt w a))) \<and>
         length (healthChecks (logAttempt w a)) \<le> 1000"
proof -
  let ?m = "mapSet (fst (entryOf a)) (snd (entryOf a)) (healthChecks w)"
  have d: "distinct (map fst ?m)" by (rule distinct_mapSet [OF assms(1)])
  have l: "length ?m \<le> 1001" using length_mapSet_le [of "fst (entryOf a)" "snd (entryOf a)" "healthChecks w"] assms(2) by simp
  have "distinct (map fst (drop 100 ?m))" using d by (simp add: drop_map [symmetric] distinct_drop)
  moreover have "length (drop 100 ?m) \<le> 1000" using l by simp
  ultimately show ?thesis
    using d l by (simp only: healthChecks_logAttempt [OF assms(1)] Let_def split: if_split) simp
qed

lemma logAttempts_invariant:
  assumes "healthChecks w = []"
  shows "distinct (map fst (healthChecks (logAttempts as w))) \<and>
         length (healthChecks (logAttempts as w)) \<le> 1000"
proof (induction as rule: rev_induct)
  case Nil
  then show ?case using assms by (simp add: logAttempts_def)
next
  case (snoc a as)
  then show ?case using logAttempt_invariant [of "logAttempts as w" a] by (simp add: logAttempts_snoc)
qed

lemma distinct_keys_manyAttempts: "distinct (map atKey manyAttempts)"
proof -
  have "inj_on (\<lambda>i. replicate i (CHR ''k'')) {0..<1001}"
    by (rule inj_onI) (metis length_replicate)
  then show ?thesis
    by (simp add: manyAttempts_def attemptNo_def comp_def distinct_map)
qed

text \<open>
  C7. Starting from the empty buffer of the constructor, after every sequence of calls of
  \<^verbatim>\<open>logDistributionAttempt\<close> the buffer holds at most 1000 entries; what a call leaves is
  the map after its \<^verbatim>\<open>set\<close> without a prefix of it, so entries are evicted oldest first,
  in insertion order; and after 1001 calls with keys that differ the buffer is the list of
  the outcomes without the oldest 100, the oldest outcome not among them. The keys are
  the strings \<^verbatim>\<open>`${Date.now()}_${Math.random()}`\<close>, which the last part takes to differ.
\<close>

theorem logDistributionAttempt_bounded_fifo:
  assumes "healthChecks w = []"
  shows "length (healthChecks (logAttempts as w)) \<le> 1000 \<and>
     (\<exists>n. healthChecks (logAttempt (logAttempts as w) a) =
            drop n (mapSet (atKey a) (snd (entryOf a)) (healthChecks (logAttempts as w)))) \<and>
     (distinct (map atKey bs) \<and> length bs = 1001 \<longrightarrow>
        healthChecks (logAttempts bs w) = drop 100 (map entryOf bs) \<and>
        atKey (hd bs) \<notin> fst ` set (healthChecks (logAttempts bs w)))"
proof -
  note inv = logAttempts_invariant [OF assms, of as]
  have fifo: "\<exists>n. healthChecks (logAttempt (logAttempts as w) a) =
            drop n (mapSet (atKey a) (snd (entryOf a)) (healthChecks (logAttempts as w)))"
  proof -
    let ?m = "mapSet (atKey a) (snd (entryOf a)) (healthChecks (logAttempts as w))"
    have "healthChecks (logAttempt (logAttempts as w) a) = drop (if length ?m > 1000 then 100 else 0) ?m"
      using inv by (simp add: healthChecks_logAttempt Let_def entryOf_def)
    then show ?thesis by blast
  qed
  have full: "healthChecks (logAttempts bs w) = drop 100 (map entryOf bs) \<and>
        atKey (hd bs) \<notin> fst ` set (healthChecks (logAttempts bs w))"
    if d: "distinct (map atKey bs)" and l: "length bs = 1001"
  proof -
    from l obtain cs c where bs: "bs = cs @ [c]" and lc: "length cs = 1000"
      by (cases bs rule: rev_cases) auto
    have eq: "healthChecks (logAttempts bs w) = drop 100 (map entryOf bs)"
      using logAttempts_capacity_plus_one [OF assms _ lc, of c] d bs by simp
    have keys: "map fst (map entryOf bs) = map atKey bs" by (simp add: entryOf_def)
    have "bs = take 100 bs @ drop 100 bs" by simp
    then have "distinct (map atKey (take 100 bs) @ map atKey (drop 100 bs))"
      using d by (metis map_append)
    moreover have "atKey (hd bs) \<in> set (map atKey (take 100 bs))"
      using l by (cases bs) auto
    ultimately have "atKey (hd bs) \<notin> set (map atKey (drop 100 bs))" by auto
    then have "atKey (hd bs) \<notin> fst ` set (drop 100 (map entryOf bs))"
      by (simp add: drop_map entryOf_def image_iff)
    with eq show ?thesis by simp
  qed
  from inv fifo full show ?thesis by blast
qed

theorem logDistributionAttempt_bounded_fifo_witness:
  "healthChecks worldStale = [] \<and> distinct (map atKey manyAttempts) \<and> length manyAttempts = 1001 \<and>
   length (healthChecks (logAttempts manyAttempts worldStale)) = 901 \<and>
   atKey (hd manyAttempts) = [] \<and>
   [] \<notin> fst ` set (healthChecks (logAttempts manyAttempts worldStale))"
proof -
  have e: "healthChecks worldStale = []" by (simp add: worldStale_def)
  have l: "length manyAttempts = 1001" by (simp add: manyAttempts_def)
  have h: "atKey (hd manyAttempts) = []"
    by (simp add: manyAttempts_def attemptNo_def upt_rec [of 0] )
  note d = distinct_keys_manyAttempts
  from logDistributionAttempt_bounded_fifo [OF e, of manyAttempts "attemptNo 0" manyAttempts] d l
  have b: "healthChecks (logAttempts manyAttempts worldStale) = drop 100 (map entryOf manyAttempts)"
    and c: "atKey (hd manyAttempts) \<notin> fst ` set (healthChecks (logAttempts manyAttempts worldStale))"
    by blast+
  have len: "length (healthChecks (logAttempts manyAttempts worldStale)) = 901"
    using l by (simp add: b)
  from c have c': "[] \<notin> fst ` set (healthChecks (logAttempts manyAttempts worldStale))"
    unfolding h .
  from e d l len h c' show ?thesis by blast
qed

section \<open>The health status\<close>

lemma successRate_failureRate:
  assumes "logs \<noteq> []"
  shows "successRate logs = 1 - failureRate logs"
proof -
  have le: "length (filter logSuccess logs) \<le> length logs" by simp
  have pos: "(of_nat (length logs) :: rat) \<noteq> 0" using assms by simp
  have "(of_nat (length logs - length (filter logSuccess logs)) :: rat) =
        of_nat (length logs) - of_nat (length (filter logSuccess logs))"
    using le by (simp add: of_nat_diff)
  then show ?thesis
    using pos by (simp add: successRate_def failureRate_def diff_divide_distrib)
qed

lemma status_empty: "recentLogs now w = [] \<Longrightarrow> status (getHealthStatus now w) = ''unknown''"
  by (simp add: getHealthStatus_def)

lemma status_nonempty:
  assumes "recentLogs now w \<noteq> []"
  shows "status (getHealthStatus now w) =
      (if lowSuccess now w then ''critical''
       else if highFailure now w \<or> slowProcessing now w then ''warning'' else ''healthy'')"
  using assms
  by (simp add: getHealthStatus_def Let_def alertThresholds_def lowSuccess_def highFailure_def
      slowProcessing_def split: prod.splits)

lemma issues_nonempty:
  assumes "recentLogs now w \<noteq> []"
  shows "issues (getHealthStatus now w) =
      (if highFailure now w then [HighFailureRate (failureRate (recentLogs now w))] else []) @
      (if slowProcessing now w then [SlowProcessing (avgProcessingTime (recentLogs now w))] else []) @
      (if lowSuccess now w then [LowSuccessRate (successRate (recentLogs now w))] else [])"
  using assms
  by (simp add: getHealthStatus_def Let_def alertThresholds_def lowSuccess_def highFailure_def
      slowProcessing_def split: prod.splits)

lemma high_imp_low:
  assumes "recentLogs now w \<noteq> []" "highFailure now w"
  shows "lowSuccess now w"
  using assms successRate_failureRate [OF assms(1)]
  by (simp add: highFailure_def lowSuccess_def)

text \<open>
  C8. Over the entries whose timestamp is less than an hour before \<open>now\<close>,
  \<^verbatim>\<open>getHealthStatus\<close> returns \<^verbatim>\<open>'unknown'\<close> when there is none. Otherwise, with the failure
  rate the share of entries that failed, the success rate the share that succeeded and
  the average of the processing times: the status is at least \<^verbatim>\<open>'warning'\<close> when the failure
  rate exceeds 0.10 or the average exceeds 30000 ms; it is \<^verbatim>\<open>'critical'\<close> when the success
  rate is below 0.90; the issues list holds one issue for every condition that is
  triggered, in the order of the checks; the status is the most severe of the statuses of
  the triggered conditions, \<^verbatim>\<open>'healthy'\<close> when there is none; and the counters returned are
  those of the window.
\<close>

theorem getHealthStatus_classification:
  "(let logs = filter (\<lambda>e. now - timestamp e < 3600000) (map snd (healthChecks w));
        total = length logs;
        ok = length (filter logSuccess logs);
        fr = rat_of_nat (total - ok) / rat_of_nat total;
        sr = rat_of_nat ok / rat_of_nat total;
        avg = rat_of_int (sum_list (map processingTime logs)) / rat_of_nat total;
        h = getHealthStatus now w
    in (logs = [] \<longrightarrow> status h = ''unknown'') \<and>
       (logs \<noteq> [] \<longrightarrow>
          (1 / 10 < fr \<or> 30000 < avg \<longrightarrow> severity ''warning'' \<le> severity (status h)) \<and>
          (sr < 9 / 10 \<longrightarrow> status h = ''critical'') \<and>
          issues h =
            (if 1 / 10 < fr then [HighFailureRate fr] else []) @
            (if 30000 < avg then [SlowProcessing avg] else []) @
            (if sr < 9 / 10 then [LowSuccessRate sr] else []) \<and>
          status h =
            mostSevere ((if 1 / 10 < fr then [''warning''] else []) @
                        (if 30000 < avg then [''warning''] else []) @
                        (if sr < 9 / 10 then [''critical''] else [])) \<and>
          status h =
            (if sr < 9 / 10 then ''critical''
             else if 1 / 10 < fr \<or> 30000 < avg then ''warning'' else ''healthy'') \<and>
          totalAttempts h = total \<and> successful h = ok \<and> failed h = total - ok))"
proof -
  have r: "recentLogs now w = filter (\<lambda>e. now - timestamp e < 3600000) (map snd (healthChecks w))"
    by (simp add: recentLogs_def)
  show ?thesis
  proof (cases "recentLogs now w = []")
    case True
    then show ?thesis using status_empty [OF True] by (simp add: r Let_def)
  next
    case False
    have st: "status (getHealthStatus now w) =
        (if lowSuccess now w then ''critical''
         else if highFailure now w \<or> slowProcessing now w then ''warning'' else ''healthy'')"
      by (rule status_nonempty [OF False])
    have ms: "status (getHealthStatus now w) =
          mostSevere ((if highFailure now w then [''warning''] else []) @
                      (if slowProcessing now w then [''warning''] else []) @
                      (if lowSuccess now w then [''critical''] else []))"
      by (simp add: st severity_def)
    have sev: "highFailure now w \<or> slowProcessing now w \<longrightarrow>
          severity ''warning'' \<le> severity (status (getHealthStatus now w))"
      by (simp add: st severity_def)
    have crit: "lowSuccess now w \<longrightarrow> status (getHealthStatus now w) = ''critical''"
      by (simp add: st)
    have cnt: "totalAttempts (getHealthStatus now w) = length (recentLogs now w) \<and>
        successful (getHealthStatus now w) = length (filter logSuccess (recentLogs now w)) \<and>
        failed (getHealthStatus now w) =
          length (recentLogs now w) - length (filter logSuccess (recentLogs now w))"
      using False by (simp add: getHealthStatus_def Let_def split: prod.splits)
    note iss = issues_nonempty [OF False]
    from False sev crit ms st cnt iss show ?thesis
      unfolding Let_def highFailure_def slowProcessing_def lowSuccess_def failureRate_def
        successRate_def avgProcessingTime_def r
      by (intro conjI impI) (simp_all only: simp_thms)
  qed
qed

theorem getHealthStatus_classification_witness:
  "status (getHealthStatus 5000 worldFourLogs) = ''critical'' \<and>
   issues (getHealthStatus 5000 worldFourLogs) = [HighFailureRate (1 / 4), LowSuccessRate (3 / 4)] \<and>
   totalAttempts (getHealthStatus 5000 worldFourLogs) = 4 \<and>
   failed (getHealthStatus 5000 worldFourLogs) = 1 \<and>
   status (getHealthStatus 5000 worldSlowLogs) = ''warning'' \<and>
   issues (getHealthStatus 5000 worldSlowLogs) = [SlowProcessing 35000] \<and>
   status (getHealthStatus 5000 worldOldLog) = ''critical'' \<and>
   healthChecks worldOldLog \<noteq> [] \<and>
   status (getHealthStatus 7201000 worldOldLog) = ''unknown''"
proof -
  from getHealthStatus_classification [of 5000 worldFourLogs]
  have a: "status (getHealthStatus 5000 worldFourLogs) = ''critical'' \<and>
     issues (getHealthStatus 5000 worldFourLogs) = [HighFailureRate (1 / 4), LowSuccessRate (3 / 4)] \<and>
     totalAttempts (getHealthStatus 5000 worldFourLogs) = 4 \<and>
     failed (getHealthStatus 5000 worldFourLogs) = 1"
    by (simp add: Let_def worldFourLogs_def logOf_def severity_def)
  from getHealthStatus_classification [of 5000 worldSlowLogs]
  have b: "status (getHealthStatus 5000 worldSlowLogs) = ''warning'' \<and>
     issues (getHealthStatus 5000 worldSlowLogs) = [SlowProcessing 35000]"
    by (simp add: Let_def worldSlowLogs_def logOf_def severity_def)
  from getHealthStatus_classification [of 5000 worldOldLog]
  have c: "status (getHealthStatus 5000 worldOldLog) = ''critical''"
    by (simp add: Let_def worldOldLog_def logOf_def severity_def)
  from getHealthStatus_classification [of 7201000 worldOldLog]
  have d: "status (getHealthStatus 7201000 worldOldLog) = ''unknown''"
    by (simp add: Let_def worldOldLog_def logOf_def severity_def)
  have e: "healthChecks worldOldLog \<noteq> []" by (simp add: worldOldLog_def)
  from a b c d e show ?thesis by blast
qed

text \<open>
  C10. For a window that is not empty the success rate is one minus the failure rate, so
  a failure rate above the threshold of 0.10 puts the success rate below 0.90, and the
  check of the success rate, which comes last, makes the status \<^verbatim>\<open>'critical'\<close>. A status
  of \<^verbatim>\<open>'warning'\<close> is therefore never due to the failure rate: it only occurs with a
  failure rate within the threshold and a slow average processing time.
\<close>

theorem getHealthStatus_high_failure_is_critical:
  assumes "recentLogs now w \<noteq> []"
  shows "successRate (recentLogs now w) = 1 - failureRate (recentLogs now w) \<and>
     (failureRate (recentLogs now w) > maxFailureRate alertThresholds \<longrightarrow>
        successRate (recentLogs now w) < minSuccessRate alertThresholds \<and>
        status (getHealthStatus now w) = ''critical'') \<and>
     (status (getHealthStatus now w) = ''warning'' \<longrightarrow>
        \<not> failureRate (recentLogs now w) > maxFailureRate alertThresholds \<and>
        avgProcessingTime (recentLogs now w) > maxProcessingTime alertThresholds)"
proof -
  note sr = successRate_failureRate [OF assms]
  note st = status_nonempty [OF assms]
  have hi: "highFailure now w = (failureRate (recentLogs now w) > maxFailureRate alertThresholds)"
    by (simp add: highFailure_def alertThresholds_def)
  have lo: "lowSuccess now w = (successRate (recentLogs now w) < minSuccessRate alertThresholds)"
    by (simp add: lowSuccess_def alertThresholds_def)
  have sl: "slowProcessing now w = (avgProcessingTime (recentLogs now w) > maxProcessingTime alertThresholds)"
    by (simp add: slowProcessing_def alertThresholds_def)
  have imp: "highFailure now w \<longrightarrow> lowSuccess now w"
    using high_imp_low [OF assms] by blast
  have crit: "failureRate (recentLogs now w) > maxFailureRate alertThresholds \<longrightarrow>
        successRate (recentLogs now w) < minSuccessRate alertThresholds \<and>
        status (getHealthStatus now w) = ''critical''"
    using imp by (simp add: st hi [symmetric] lo [symmetric])
  have warn: "status (getHealthStatus now w) = ''warning'' \<longrightarrow>
        \<not> failureRate (recentLogs now w) > maxFailureRate alertThresholds \<and>
        avgProcessingTime (recentLogs now w) > maxProcessingTime alertThresholds"
    using imp by (auto simp: st hi [symmetric] sl [symmetric] split: if_splits)
  from sr crit warn show ?thesis by blast
qed

theorem getHealthStatus_high_failure_is_critical_witness:
  "recentLogs 5000 worldFourLogs \<noteq> [] \<and>
   failureRate (recentLogs 5000 worldFourLogs) = 1 / 4 \<and>
   successRate (recentLogs 5000 worldFourLogs) = 3 / 4 \<and>
   failureRate (recentLogs 5000 worldFourLogs) > maxFailureRate alertThresholds \<and>
   status (getHealthStatus 5000 worldFourLogs) = ''critical''"
proof -
  have logs: "recentLogs 5000 worldFourLogs =
      [logOf 1000 True 5, logOf 2000 False 7, logOf 3000 True 5, logOf 4000 True 7]"
    by (simp add: recentLogs_def worldFourLogs_def logOf_def)
  have ne: "recentLogs 5000 worldFourLogs \<noteq> []" by (simp add: logs)
  have fr: "failureRate (recentLogs 5000 worldFourLogs) = 1 / 4"
    by (simp add: logs failureRate_def logOf_def)
  have hi: "failureRate (recentLogs 5000 worldFourLogs) > maxFailureRate alertThresholds"
    by (simp add: fr alertThresholds_def)
  from getHealthStatus_high_failure_is_critical [OF ne] hi
  have st: "status (getHealthStatus 5000 worldFourLogs) = ''critical''"
    and sr: "successRate (recentLogs 5000 worldFourLogs) = 1 - failureRate (recentLogs 5000 worldFourLogs)"
    by blast+
  from sr have sr': "successRate (recentLogs 5000 worldFourLogs) = 3 / 4" by (simp add: fr)
  from ne fr sr' hi st show ?thesis by blast
qed

section \<open>A batch\<close>

lemma healthChecks_updateDailyCount [simp]:
  "healthChecks (updateDailyCount now cid w) = healthChecks w"
  by (simp add: updateDailyCount_def Let_def)

lemma dbConnected_updateDailyCount [simp]:
  "dbConnected (updateDailyCount now cid w) = dbConnected w"
  by (simp add: updateDailyCount_def Let_def)

lemma forEachResult_eq:
  "forEachResult now rs (r, w) =
     (r\<lparr>success := success r + length (filter (\<lambda>p. isOK (fst p)) rs),
        errors := errors r + length (filter (\<lambda>p. \<not> isOK (fst p)) rs)\<rparr>,
      foldl (\<lambda>w cid. updateDailyCount now cid w) w
        (map (\<lambda>p. company_id (agency (snd p))) (filter (\<lambda>p. isOK (fst p)) rs)))"
proof (induction rs arbitrary: r w)
  case Nil
  then show ?case by simp
next
  case (Cons p rs)
  obtain res ag where p: "p = (res, ag)" by (cases p)
  show ?case
    by (cases res) (simp_all add: p Cons.IH isOK_def)
qed

lemma processBatch_eq:
  "processBatch chan now cand batch w =
     (\<lparr>success = length (filter (sendOK chan cand) batch),
       errors = length (filter (\<lambda>ag. \<not> sendOK chan cand ag) batch)\<rparr>,
      foldl (\<lambda>w cid. updateDailyCount now cid w) w (agencyIds (filter (sendOK chan cand) batch)))"
proof -
  let ?rs = "zip (map (sendCVToAgency chan cand) batch) batch"
  have z: "?rs = map (\<lambda>ag. (sendCVToAgency chan cand ag, ag)) batch"
    by (induction batch) simp_all
  have f1: "filter (\<lambda>p. isOK (fst p)) ?rs =
        map (\<lambda>ag. (sendCVToAgency chan cand ag, ag)) (filter (sendOK chan cand) batch)"
    by (simp add: z filter_map comp_def sendOK_def [abs_def])
  have f2: "filter (\<lambda>p. \<not> isOK (fst p)) ?rs =
        map (\<lambda>ag. (sendCVToAgency chan cand ag, ag)) (filter (\<lambda>ag. \<not> sendOK chan cand ag) batch)"
    by (simp add: z filter_map comp_def sendOK_def [abs_def])
  show ?thesis
    by (simp add: processBatch_def Let_def forEachResult_eq f1 f2 agencyIds_def comp_def)
qed

lemma fst_processBatch:
  "fst (processBatch chan now cand batch w) =
     \<lparr>success = length (filter (sendOK chan cand) batch),
      errors = length (filter (\<lambda>ag. \<not> sendOK chan cand ag) batch)\<rparr>"
  by (simp add: processBatch_eq)

lemma healthChecks_foldl_update [simp]:
  "healthChecks (foldl (\<lambda>w cid. updateDailyCount now cid w) w ids) = healthChecks w"
  by (induction ids arbitrary: w) simp_all

lemma dbConnected_foldl_update [simp]:
  "dbConnected (foldl (\<lambda>w cid. updateDailyCount now cid w) w ids) = dbConnected w"
  by (induction ids arbitrary: w) simp_all

lemma findById_foldl_update_other:
  "cid \<notin> set ids \<Longrightarrow>
   findById cid (companies (foldl (\<lambda>w cid. updateDailyCount now cid w) w ids)) = findById cid (companies w)"
  by (induction ids arbitrary: w) (auto simp: findById_updateDailyCount_other)

lemma findById_foldl_update_once:
  assumes "dbConnected w" and "distinct ids" and "cid \<in> set ids"
  shows "findById cid (companies (foldl (\<lambda>w cid. updateDailyCount now cid w) w ids)) =
     map_option (quotaUpdate now) (findById cid (companies w))"
proof -
  from assms(3) obtain xs ys where ids: "ids = xs @ cid # ys" by (auto simp: in_set_conv_decomp)
  with assms(2) have nx: "cid \<notin> set xs" and ny: "cid \<notin> set ys" by auto
  let ?w1 = "foldl (\<lambda>w cid. updateDailyCount now cid w) w xs"
  have c1: "dbConnected ?w1" using assms(1) by simp
  have "findById cid (companies (updateDailyCount now cid ?w1)) =
        map_option (quotaUpdate now) (findById cid (companies ?w1))"
    by (simp add: findById_updateDailyCount [OF c1] quotaUpdate_def split: option.splits)
  also have "findById cid (companies ?w1) = findById cid (companies w)"
    by (rule findById_foldl_update_other [OF nx])
  finally show ?thesis
    by (simp add: ids findById_foldl_update_other [OF ny])
qed

lemma filter_partition_length:
  "length (filter P xs) + length (filter (\<lambda>x. \<not> P x) xs) = length xs"
  by (induction xs) auto

lemma quotaUpdate_fresh:
  assumes "\<not> lastCountResetLt (now - oneDayMs) c"
  shows "(case distributionSettings (quotaUpdate now c) of None \<Rightarrow> None | Some st \<Rightarrow> dailyCount st) =
     Some (storedCount c + 1)"
  using assms
  by (simp add: quotaUpdate_def incDailyCount_def storedCount_def settingsOf_def Let_def
      emptySettings_def split: option.splits)

lemma processBatch_isolates_failure:
  assumes "A \<in> set batch" and "B \<in> set batch"
    and "distinct (agencyIds batch)"
    and "sendCVToAgency chan cand A = Inl e" and "sendCVToAgency chan cand B = Inr v"
    and "dbConnected w"
  shows "success (fst (processBatch chan now cand batch w)) = length (filter (sendOK chan cand) batch) \<and>
     errors (fst (processBatch chan now cand batch w)) = length (filter (\<lambda>ag. \<not> sendOK chan cand ag) batch) \<and>
     1 \<le> success (fst (processBatch chan now cand batch w)) \<and>
     1 \<le> errors (fst (processBatch chan now cand batch w)) \<and>
     success (fst (processBatch chan now cand batch w)) + errors (fst (processBatch chan now cand batch w)) = length batch \<and>
     findById (company_id (agency B)) (companies (snd (processBatch chan now cand batch w))) =
       map_option (quotaUpdate now) (findById (company_id (agency B)) (companies w)) \<and>
     findById (company_id (agency A)) (companies (snd (processBatch chan now cand batch w))) =
       findById (company_id (agency A)) (companies w)"
proof -
  let ?ok = "filter (sendOK chan cand) batch"
  have okB: "sendOK chan cand B" and nokA: "\<not> sendOK chan cand A"
    using assms(4,5) by (simp_all add: sendOK_def isOK_def)
  have Bin: "B \<in> set ?ok" using assms(2) okB by simp
  have Ain: "A \<in> set (filter (\<lambda>ag. \<not> sendOK chan cand ag) batch)" using assms(1) nokA by simp
  have s1: "1 \<le> length ?ok" using Bin by (cases ?ok) auto
  have e1: "1 \<le> length (filter (\<lambda>ag. \<not> sendOK chan cand ag) batch)"
    using Ain by (cases "filter (\<lambda>ag. \<not> sendOK chan cand ag) batch") auto
  have d: "distinct (agencyIds ?ok)"
    using assms(3) by (simp add: agencyIds_def distinct_map_filter)
  have idB: "company_id (agency B) \<in> set (agencyIds ?ok)"
    using Bin by (auto simp: agencyIds_def)
  have idA: "company_id (agency A) \<notin> set (agencyIds ?ok)"
  proof
    assume "company_id (agency A) \<in> set (agencyIds ?ok)"
    then obtain ag where ag: "ag \<in> set batch" "sendOK chan cand ag"
        "company_id (agency ag) = company_id (agency A)"
      by (auto simp: agencyIds_def)
    from assms(3) have "inj_on (\<lambda>ag. company_id (agency ag)) (set batch)"
      by (simp add: agencyIds_def distinct_map)
    with ag(1,3) assms(1) have "ag = A" by (auto dest: inj_onD)
    with ag(2) nokA show False by simp
  qed
  show ?thesis
    using s1 e1 filter_partition_length [of "sendOK chan cand" batch]
      findById_foldl_update_once [OF assms(6) d idB, of now]
      findById_foldl_update_other [OF idA, of now w]
    by (simp add: processBatch_eq)
qed

text \<open>
  C2, as claimed: every send attempt of a batch, successful or not, leaves exactly one
  DispatchOutcome in the monitor's buffer. \<^verbatim>\<open>processBatch\<close> never calls the monitor, and
  nothing else in the repository calls \<^verbatim>\<open>logDistributionAttempt\<close>: after a batch of one
  agency whose send succeeds the buffer is as empty as before.
\<close>

theorem processBatch_emits_nothing:
  "\<not> claimedEmitted worldStale [eligStale]
       (snd (processBatch chanAll 200000000 candSouth [eligStale] worldStale)) \<and>
   fst (processBatch chanAll 200000000 candSouth [eligStale] worldStale) = \<lparr>success = 1, errors = 0\<rparr> \<and>
   healthChecks (snd (processBatch chanAll 200000000 candSouth [eligStale] worldStale)) = []"
  by (simp add: claimedEmitted_def processBatch_eq worldStale_def sendOK_def isOK_def
      sendCVToAgency_def activeEmails_def eligStale_def agencyStale_def chanAll_def)

text \<open>
  C2, amended: processing a batch emits no DispatchOutcome, the monitor's buffer is left
  as it was; every attempt is only tallied in the counters the batch returns, a success
  for each agency whose send is fulfilled and an error for each whose send is rejected,
  which add up to the size of the batch.
\<close>

theorem processBatch_leaves_monitor:
  "healthChecks (snd (processBatch chan now cand batch w)) = healthChecks w \<and>
   success (fst (processBatch chan now cand batch w)) = length (filter (sendOK chan cand) batch) \<and>
   errors (fst (processBatch chan now cand batch w)) = length (filter (\<lambda>ag. \<not> sendOK chan cand ag) batch) \<and>
   success (fst (processBatch chan now cand batch w)) + errors (fst (processBatch chan now cand batch w)) =
     length batch"
  using filter_partition_length [of "sendOK chan cand" batch]
  by (simp add: processBatch_eq)

theorem processBatch_leaves_monitor_witness:
  "healthChecks (snd (processBatch chanAll 5000 candSouth [eligStale] worldFourLogs)) =
     healthChecks worldFourLogs \<and>
   length (healthChecks worldFourLogs) = 4 \<and>
   fst (processBatch chanAll 5000 candSouth [eligStale] worldFourLogs) = \<lparr>success = 1, errors = 0\<rparr>"
proof -
  have ok: "sendOK chanAll candSouth eligStale"
    by (simp add: sendOK_def isOK_def sendCVToAgency_def activeEmails_def eligStale_def
        agencyStale_def chanAll_def)
  from processBatch_leaves_monitor [of chanAll 5000 candSouth "[eligStale]" worldFourLogs]
  show ?thesis
    using ok by (cases "fst (processBatch chanAll 5000 candSouth [eligStale] worldFourLogs)")
      (simp add: worldFourLogs_def)
qed

section \<open>The batches of a job\<close>

lemma ceilDiv_step:
  assumes "0 < m" and "0 < n"
  shows "ceilDiv n m = Suc (ceilDiv (n - m) m)"
proof -
  from assms(2) obtain k where n: "n = Suc k" by (cases n) auto
  have L: "(Suc k + m - 1) div m = Suc (k div m)" using assms(1) by simp
  have R: "(Suc k - m + m - 1) div m = k div m"
  proof (cases "m \<le> Suc k")
    case True
    then show ?thesis by simp
  next
    case False
    then have "k div m = 0" by simp
    moreover have "(m - 1) div m = 0" using assms(1) by simp
    ultimately show ?thesis using False by simp
  qed
  show ?thesis unfolding ceilDiv_def n L R ..
qed

lemma ceilDiv_ceiling:
  assumes "0 < m"
  shows "int (ceilDiv n m) = \<lceil>rat_of_nat n / rat_of_nat m\<rceil>"
proof -
  let ?c = "(n + m - 1) div m"
  have up: "n \<le> ?c * m"
  proof -
    have "n + m - 1 = ?c * m + (n + m - 1) mod m" by simp
    moreover have "(n + m - 1) mod m < m" using assms by simp
    ultimately show ?thesis by linarith
  qed
  have lo: "?c * m < n + m"
  proof -
    have "?c * m \<le> n + m - 1" by simp
    then show ?thesis using assms by linarith
  qed
  have mpos: "(0::rat) < rat_of_nat m" using assms by simp
  have "rat_of_nat n \<le> rat_of_nat (?c * m)" using up by (simp only: of_nat_le_iff)
  then have a: "rat_of_nat n / rat_of_nat m \<le> of_int (int ?c)"
    using mpos by (simp add: pos_divide_le_eq)
  have "rat_of_nat (?c * m) < rat_of_nat (n + m)" using lo by (simp only: of_nat_less_iff)
  then have "(of_int (int ?c) - 1) * rat_of_nat m < rat_of_nat n"
    by (simp add: algebra_simps)
  then have b: "of_int (int ?c) - 1 < rat_of_nat n / rat_of_nat m"
    using mpos by (simp add: pos_less_divide_eq)
  from b a have "\<lceil>rat_of_nat n / rat_of_nat m\<rceil> = int ?c" by (rule ceiling_unique)
  then show ?thesis by (simp add: ceilDiv_def)
qed

lemma batchLoop_schedule:
  assumes "0 < mbs"
  shows "\<exists>sched. batchLoop mbs ags i t = Some sched \<and>
      length sched = ceilDiv (length ags - i) mbs \<and>
      (\<forall>k<length sched. sched ! k = (t + 500 * int k, slice (i + k * mbs) (i + k * mbs + mbs) ags))"
proof (induction "length ags - i" arbitrary: i t rule: less_induct)
  case less
  show ?case
  proof (cases "i < length ags")
    case False
    then show ?thesis using assms by (subst batchLoop.simps) (simp add: ceilDiv_def)
  next
    case True
    let ?t' = "if i + mbs < length ags then t + 500 else t"
    have "length ags - (i + mbs) < length ags - i" using True assms by simp
    from less [OF this, of ?t'] obtain rest where
      rest: "batchLoop mbs ags (i + mbs) ?t' = Some rest"
      and len: "length rest = ceilDiv (length ags - (i + mbs)) mbs"
      and nth: "\<And>k. k < length rest \<Longrightarrow>
          rest ! k = (?t' + 500 * int k, slice (i + mbs + k * mbs) (i + mbs + k * mbs + mbs) ags)"
      by blast
    let ?sched = "(t, slice i (i + mbs) ags) # rest"
    have eq: "batchLoop mbs ags i t = Some ?sched"
      using True rest by (subst batchLoop.simps) simp
    have l: "length ?sched = ceilDiv (length ags - i) mbs"
      using ceilDiv_step [OF assms, of "length ags - i"] True len by simp
    have n: "?sched ! k = (t + 500 * int k, slice (i + k * mbs) (i + k * mbs + mbs) ags)"
      if "k < length ?sched" for k
    proof (cases k)
      case 0
      then show ?thesis by simp
    next
      case (Suc k')
      with that have k': "k' < length rest" by simp
      then have "0 < ceilDiv (length ags - (i + mbs)) mbs" using len by simp
      then have "i + mbs < length ags"
        using assms by (cases "i + mbs < length ags") (simp_all add: ceilDiv_def)
      then show ?thesis using nth [OF k'] Suc by (simp add: algebra_simps)
    qed
    from eq l n show ?thesis by blast
  qed
qed

lemma concat_batchLoop:
  assumes "0 < mbs" and "batchLoop mbs ags i t = Some sched"
  shows "concat (map snd sched) = drop i ags"
  using assms(2)
proof (induction "length ags - i" arbitrary: i t sched rule: less_induct)
  case less
  show ?case
  proof (cases "i < length ags")
    case False
    with less.prems show ?thesis by (subst (asm) batchLoop.simps) simp
  next
    case True
    let ?t' = "if i + mbs < length ags then t + 500 else t"
    from less.prems True obtain rest where
      rest: "batchLoop mbs ags (i + mbs) ?t' = Some rest"
      and sched: "sched = (t, slice i (i + mbs) ags) # rest"
      by (subst (asm) batchLoop.simps) (auto simp: bind_eq_Some_conv)
    have "length ags - (i + mbs) < length ags - i" using True assms(1) by simp
    from less.hyps [OF this rest] have "concat (map snd rest) = drop (i + mbs) ags" .
    moreover have "slice i (i + mbs) ags @ drop (i + mbs) ags = drop i ags"
      by (simp add: slice_def add.commute [of i mbs] drop_drop [symmetric] del: drop_drop)
    ultimately show ?thesis by (simp add: sched)
  qed
qed

lemma fst_runBatches:
  "fst (runBatches chan lat cand sched w) = map (runOf chan lat cand) sched"
proof (induction sched arbitrary: w)
  case Nil
  then show ?case by simp
next
  case (Cons p sched)
  obtain t batch where p: "p = (t, batch)" by (cases p)
  obtain r w1 where pb: "processBatch chan (settleTime lat t batch) cand batch w = (r, w1)"
    by (cases "processBatch chan (settleTime lat t batch) cand batch w")
  obtain runs w2 where rb: "runBatches chan lat cand sched w1 = (runs, w2)"
    by (cases "runBatches chan lat cand sched w1")
  have r: "r = \<lparr>success = length (filter (sendOK chan cand) batch),
      errors = length (filter (\<lambda>ag. \<not> sendOK chan cand ag) batch)\<rparr>"
    using fst_processBatch [of chan "settleTime lat t batch" cand batch w] by (simp only: pb fst_conv)
  have runs: "runs = map (runOf chan lat cand) sched"
    using Cons.IH [of w1] by (simp only: rb fst_conv)
  show ?case
    by (simp add: p pb rb r runs runOf_def)
qed

lemma healthChecks_runBatches:
  "healthChecks (snd (runBatches chan lat cand sched w)) = healthChecks w"
proof (induction sched arbitrary: w)
  case Nil
  then show ?case by simp
next
  case (Cons p sched)
  obtain t batch where p: "p = (t, batch)" by (cases p)
  obtain r w1 where pb: "processBatch chan (settleTime lat t batch) cand batch w = (r, w1)"
    by (cases "processBatch chan (settleTime lat t batch) cand batch w")
  obtain runs w2 where rb: "runBatches chan lat cand sched w1 = (runs, w2)"
    by (cases "runBatches chan lat cand sched w1")
  have "healthChecks w1 = healthChecks w"
    using processBatch_eq [of chan "settleTime lat t batch" cand batch w] by (simp add: pb)
  moreover have "healthChecks w2 = healthChecks w1"
    using Cons.IH [of w1] by (simp add: rb)
  ultimately show ?case
    by (simp add: p pb rb)
qed

lemma settledAt_le_finished:
  "b \<in> set runs \<Longrightarrow> settledAt b \<le> foldr (\<lambda>b m. max (settledAt b) m) runs t0"
  by (induction runs) auto

lemma processSingleDistribution_runs:
  assumes "0 < mbs"
  shows "\<exists>sched w'. batchLoop mbs (taskAgencies tk) 0 t0 = Some sched \<and>
     processSingleDistribution chan lat mbs t0 tk w =
       Some (\<lparr>batchRuns = map (runOf chan lat (taskCandidate tk)) sched,
              successCount = sum_list (map (\<lambda>p. length (filter (sendOK chan (taskCandidate tk)) (snd p))) sched),
              errorCount = sum_list (map (\<lambda>p. length (filter (\<lambda>ag. \<not> sendOK chan (taskCandidate tk) ag) (snd p))) sched),
              finishedAt = foldr (\<lambda>b m. max (settledAt b) m) (map (runOf chan lat (taskCandidate tk)) sched) t0\<rparr>, w') \<and>
     healthChecks w' = healthChecks w"
proof -
  from batchLoop_schedule [OF assms, of "taskAgencies tk" 0 t0] obtain sched where
    sched: "batchLoop mbs (taskAgencies tk) 0 t0 = Some sched" by blast
  obtain runs w1 where rb: "runBatches chan lat (taskCandidate tk) sched w = (runs, w1)"
    by (cases "runBatches chan lat (taskCandidate tk) sched w")
  have runs: "runs = map (runOf chan lat (taskCandidate tk)) sched"
    using fst_runBatches [of chan lat "taskCandidate tk" sched w] by (simp add: rb)
  have hc: "healthChecks w1 = healthChecks w"
    using healthChecks_runBatches [of chan lat "taskCandidate tk" sched w] by (simp add: rb)
  show ?thesis
    using hc by (simp add: processSingleDistribution_def sched rb runs comp_def runOf_def)
qed

lemma sum_filter_concat:
  "sum_list (map (\<lambda>p. length (filter P (snd p))) sched) = length (filter P (concat (map snd sched)))"
  by (induction sched) simp_all

lemma job_counts:
  assumes "0 < mbs"
  shows "\<exists>rep w'. processSingleDistribution chan lat mbs t0 tk w = Some (rep, w') \<and>
      successCount rep = length (filter (sendOK chan (taskCandidate tk)) (taskAgencies tk)) \<and>
      errorCount rep = length (filter (\<lambda>ag. \<not> sendOK chan (taskCandidate tk) ag) (taskAgencies tk)) \<and>
      concat (map batchAgencies (batchRuns rep)) = taskAgencies tk"
proof -
  from processSingleDistribution_runs [OF assms, of tk t0 chan lat w] obtain sched w' rep where
    sched: "batchLoop mbs (taskAgencies tk) 0 t0 = Some sched"
    and psd: "processSingleDistribution chan lat mbs t0 tk w = Some (rep, w')"
    and runs: "batchRuns rep = map (runOf chan lat (taskCandidate tk)) sched"
    and sc: "successCount rep = sum_list (map (\<lambda>p. length (filter (sendOK chan (taskCandidate tk)) (snd p))) sched)"
    and ec: "errorCount rep = sum_list (map (\<lambda>p. length (filter (\<lambda>ag. \<not> sendOK chan (taskCandidate tk) ag) (snd p))) sched)"
    by force
  have c: "concat (map snd sched) = taskAgencies tk"
    using concat_batchLoop [OF assms sched] by simp
  have "concat (map batchAgencies (batchRuns rep)) = taskAgencies tk"
    using c by (simp add: runs comp_def runOf_def)
  with psd sc ec c show ?thesis by (simp add: sum_filter_concat)
qed

lemma settleTime_latTwoSeconds:
  "batch \<noteq> [] \<Longrightarrow> settleTime latTwoSeconds t batch = t + 2000"
proof -
  have "foldr (\<lambda>ag m. max (latTwoSeconds (company_id (agency ag))) m) batch 0 =
      (if batch = [] then 0 else 2000)"
    by (induction batch) (simp_all add: latTwoSeconds_def)
  then show "batch \<noteq> [] \<Longrightarrow> settleTime latTwoSeconds t batch = t + 2000"
    by (simp add: settleTime_def)
qed

lemma length_task101: "length (taskAgencies task101) = 101"
  by (simp add: task101_def)

lemma runs_task101:
  "\<exists>rep w'. processSingleDistribution chanAll latTwoSeconds (maxBatchSize newService) 0 task101 world101 = Some (rep, w') \<and>
     map (\<lambda>b. (dispatchedAt b, settledAt b)) (batchRuns rep) = [(0, 2000), (500, 2500)]"
proof -
  have m: "maxBatchSize newService = 100" by (simp add: newService_def)
  have pos: "0 < (100::nat)" by simp
  from processSingleDistribution_runs [OF pos, of task101 0 chanAll latTwoSeconds world101] obtain sched w' rep where
    sched: "batchLoop 100 (taskAgencies task101) 0 0 = Some sched"
    and psd: "processSingleDistribution chanAll latTwoSeconds 100 0 task101 world101 = Some (rep, w')"
    and runs: "batchRuns rep = map (runOf chanAll latTwoSeconds (taskCandidate task101)) sched"
    by force
  from batchLoop_schedule [OF pos, of "taskAgencies task101" 0 0] sched have
    len: "length sched = ceilDiv 101 100"
    and nth: "\<And>k. k < length sched \<Longrightarrow> sched ! k = (500 * int k, slice (k * 100) (k * 100 + 100) (taskAgencies task101))"
    by (auto simp: length_task101)
  have l2: "length sched = 2" using len by (simp add: ceilDiv_def)
  then have s: "sched = [sched ! 0, sched ! Suc 0]"
    by (cases sched; cases "tl sched") auto
  have n0: "sched ! 0 = (0, slice 0 100 (taskAgencies task101))" using nth [of 0] l2 by simp
  have n1: "sched ! Suc 0 = (500, slice 100 200 (taskAgencies task101))" using nth [of 1] l2 by simp
  have ne0: "slice 0 100 (taskAgencies task101) \<noteq> []"
    using length_task101 by (auto simp: slice_def)
  have ne1: "slice 100 200 (taskAgencies task101) \<noteq> []"
    using length_task101 by (auto simp: slice_def)
  have "map (\<lambda>b. (dispatchedAt b, settledAt b)) (batchRuns rep) = [(0, 2000), (500, 2500)]"
    unfolding runs by (subst s) (simp add: n0 n1 runOf_def settleTime_latTwoSeconds ne0 ne1)
  with psd show ?thesis by (simp add: m)
qed

text \<open>
  C3, as claimed: batch \<open>k + 1\<close> is never dispatched before all sends of batch \<open>k\<close> have
  settled and the delay between batches has elapsed. The loop of
  \<^verbatim>\<open>processSingleDistribution\<close> does not await the promise of a batch, it awaits only
  \<^verbatim>\<open>this.delay(500)\<close>, and waits for all batches after the loop. With the batch size of
  100 of the constructor, a job of 101 agencies whose sends take two seconds dispatches
  its second batch at 500 ms, while the first settles at 2000 ms.
\<close>

theorem batches_overlap:
  "processSingleDistribution chanAll latTwoSeconds (maxBatchSize newService) 0 task101 world101 \<noteq> None \<and>
   \<not> batchesInOrder 500 (batchRuns (fst (the
       (processSingleDistribution chanAll latTwoSeconds (maxBatchSize newService) 0 task101 world101)))) \<and>
   \<not> batchesInOrder 0 (batchRuns (fst (the
       (processSingleDistribution chanAll latTwoSeconds (maxBatchSize newService) 0 task101 world101)))) \<and>
   map (\<lambda>b. (dispatchedAt b, settledAt b)) (batchRuns (fst (the
       (processSingleDistribution chanAll latTwoSeconds (maxBatchSize newService) 0 task101 world101)))) =
     [(0, 2000), (500, 2500)]"
proof -
  obtain rep w' where
    psd: "processSingleDistribution chanAll latTwoSeconds (maxBatchSize newService) 0 task101 world101 = Some (rep, w')"
    and m: "map (\<lambda>b. (dispatchedAt b, settledAt b)) (batchRuns rep) = [(0, 2000), (500, 2500)]"
    using runs_task101 by (elim exE conjE)
  from m obtain a b where ab: "batchRuns rep = [a, b]" by auto
  with m have "settledAt a = 2000" "dispatchedAt b = 500" by auto
  then have "\<not> batchesInOrder 500 (batchRuns rep)" "\<not> batchesInOrder 0 (batchRuns rep)"
    by (simp_all add: ab)
  with psd m show ?thesis by simp
qed

text \<open>
  C3, amended: with a batch size that is positive, processing a job of \<open>N\<close> agencies
  returns; it issues exactly \<open>\<lceil>N / maxBatchSize\<rceil>\<close> batches, consecutive slices of the
  agency list of at most \<^verbatim>\<open>maxBatchSize\<close> agencies each; batch \<open>k\<close> is dispatched 500 ms
  after batch \<open>k - 1\<close> was dispatched, whether or not the sends of that batch have settled;
  a batch settles with the last of its sends, and the job is over only when every batch
  has settled.
\<close>

theorem processSingleDistribution_batches:
  assumes "0 < mbs"
  shows "\<exists>rep w'. processSingleDistribution chan lat mbs t0 tk w = Some (rep, w') \<and>
     int (length (batchRuns rep)) = \<lceil>rat_of_nat (length (taskAgencies tk)) / rat_of_nat mbs\<rceil> \<and>
     concat (map batchAgencies (batchRuns rep)) = taskAgencies tk \<and>
     (\<forall>k<length (batchRuns rep).
        batchAgencies (batchRuns rep ! k) = slice (k * mbs) (k * mbs + mbs) (taskAgencies tk) \<and>
        length (batchAgencies (batchRuns rep ! k)) \<le> mbs \<and>
        dispatchedAt (batchRuns rep ! k) = t0 + 500 * int k \<and>
        settledAt (batchRuns rep ! k) =
          settleTime lat (dispatchedAt (batchRuns rep ! k)) (batchAgencies (batchRuns rep ! k)) \<and>
        settledAt (batchRuns rep ! k) \<le> finishedAt rep)"
proof -
  let ?ags = "taskAgencies tk"
  from processSingleDistribution_runs [OF assms, of tk t0 chan lat w] obtain sched w' rep where
    sched: "batchLoop mbs ?ags 0 t0 = Some sched"
    and psd: "processSingleDistribution chan lat mbs t0 tk w = Some (rep, w')"
    and runs: "batchRuns rep = map (runOf chan lat (taskCandidate tk)) sched"
    and fin: "finishedAt rep = foldr (\<lambda>b m. max (settledAt b) m) (batchRuns rep) t0"
    by force
  from batchLoop_schedule [OF assms, of ?ags 0 t0] sched have
    len: "length sched = ceilDiv (length ?ags) mbs"
    and nth: "\<And>k. k < length sched \<Longrightarrow> sched ! k = (t0 + 500 * int k, slice (k * mbs) (k * mbs + mbs) ?ags)"
    by auto
  have c: "concat (map batchAgencies (batchRuns rep)) = ?ags"
    using concat_batchLoop [OF assms sched] by (simp add: runs comp_def runOf_def)
  have l: "int (length (batchRuns rep)) = \<lceil>rat_of_nat (length ?ags) / rat_of_nat mbs\<rceil>"
    using ceilDiv_ceiling [OF assms, of "length ?ags"] by (simp add: runs len)
  have each: "batchAgencies (batchRuns rep ! k) = slice (k * mbs) (k * mbs + mbs) ?ags \<and>
        length (batchAgencies (batchRuns rep ! k)) \<le> mbs \<and>
        dispatchedAt (batchRuns rep ! k) = t0 + 500 * int k \<and>
        settledAt (batchRuns rep ! k) =
          settleTime lat (dispatchedAt (batchRuns rep ! k)) (batchAgencies (batchRuns rep ! k)) \<and>
        settledAt (batchRuns rep ! k) \<le> finishedAt rep"
    if k: "k < length (batchRuns rep)" for k
  proof -
    from k have k': "k < length sched" by (simp add: runs)
    have r: "batchRuns rep ! k = runOf chan lat (taskCandidate tk) (sched ! k)"
      using k' by (simp add: runs)
    have "batchRuns rep ! k \<in> set (batchRuns rep)" using k by simp
    then have "settledAt (batchRuns rep ! k) \<le> finishedAt rep"
      unfolding fin by (rule settledAt_le_finished)
    then show ?thesis
      by (simp add: r nth [OF k'] runOf_def slice_def)
  qed
  from psd l c each show ?thesis by blast
qed

theorem processSingleDistribution_batches_witness:
  "0 < maxBatchSize newService \<and>
   length (taskAgencies task101) = 101 \<and>
   processSingleDistribution chanAll latTwoSeconds (maxBatchSize newService) 0 task101 world101 \<noteq> None \<and>
   length (batchRuns (fst (the
       (processSingleDistribution chanAll latTwoSeconds (maxBatchSize newService) 0 task101 world101)))) = 2"
proof -
  have pos: "0 < maxBatchSize newService" by (simp add: newService_def)
  from processSingleDistribution_batches [OF pos, of chanAll latTwoSeconds 0 task101 world101]
  obtain rep w' where
    psd: "processSingleDistribution chanAll latTwoSeconds (maxBatchSize newService) 0 task101 world101 = Some (rep, w')"
    and l: "int (length (batchRuns rep)) = \<lceil>rat_of_nat (length (taskAgencies task101)) / rat_of_nat (maxBatchSize newService)\<rceil>"
    by blast
  have "\<lceil>rat_of_nat 101 / rat_of_nat 100\<rceil> = (2::int)" by (simp add: ceiling_eq_iff)
  with l have "length (batchRuns rep) = 2" by (simp add: length_task101 newService_def)
  with psd pos length_task101 show ?thesis by simp
qed

section \<open>The drain loop\<close>

lemma drainInv_newService: "drainInv newService"
  by (simp add: drainInv_def newService_def inFlight_def)

lemma drainInv_cases:
  assumes "drainInv s"
  obtains (idle) "drains s = []" "\<not> isProcessing s"
  | (busy) tk where "drains s = [Processing tk]" "isProcessing s"
  | (waiting) "drains s = [Delaying (batchDelay s)]" "isProcessing s" "distributionQueue s \<noteq> []"
proof (cases "drains s")
  case Nil
  with assms idle show ?thesis by (simp add: drainInv_def)
next
  case (Cons d ds)
  with assms have ds: "ds = []" and p: "isProcessing s" by (simp_all add: drainInv_def)
  show ?thesis
  proof (cases d)
    case (Processing tk)
    with Cons ds p busy show ?thesis by simp
  next
    case (Delaying x)
    with Cons ds assms have "x = batchDelay s" "distributionQueue s \<noteq> []" by (simp_all add: drainInv_def)
    with Cons ds p Delaying waiting show ?thesis by simp
  qed
qed

lemma drainInv_processDistributionQueue:
  assumes "drainInv s"
  shows "drainInv (processDistributionQueue s)"
proof (cases "isProcessing s \<or> distributionQueue s = []")
  case True
  then show ?thesis using assms by (simp add: processDistributionQueue_def)
next
  case False
  then obtain tk rest where q: "distributionQueue s = tk # rest" by (cases "distributionQueue s") auto
  from False assms have d: "drains s = []" by (simp add: drainInv_def)
  show ?thesis
    using assms False
    by (simp add: processDistributionQueue_def nextIteration_def q d drainInv_def inFlight_def)
qed

lemma drainInv_enqueue:
  assumes "drainInv s"
  shows "drainInv (enqueue tk s)"
proof -
  let ?s1 = "s\<lparr>distributionQueue := distributionQueue s @ [tk], pushed := pushed s @ [tk]\<rparr>"
  have w: "waitingOk ?s1 d = (case d of Processing t \<Rightarrow> True | Delaying x \<Rightarrow> x = batchDelay s)" for d
    by (cases d) simp_all
  have "drainInv ?s1"
    using assms by (cases rule: drainInv_cases [OF assms]) (simp_all add: drainInv_def inFlight_def)
  then have "drainInv (processDistributionQueue ?s1)"
    by (rule drainInv_processDistributionQueue)
  with \<open>drainInv ?s1\<close> show ?thesis
    by (simp add: enqueue_def Let_def)
qed

lemma drainInv_jobSettled:
  assumes "drainInv s"
  shows "drainInv (jobSettled k s)"
  using assms
proof (cases rule: drainInv_cases)
  case idle
  then show ?thesis using assms by (simp add: jobSettled_def drainAt_def)
next
  case (busy tk)
  show ?thesis
  proof (cases k)
    case (Suc k')
    then show ?thesis using assms busy by (simp add: jobSettled_def drainAt_def)
  next
    case 0
    show ?thesis
    proof (cases "distributionQueue s")
      case Nil
      then show ?thesis
        using assms busy 0
        by (simp add: jobSettled_def drainAt_def Let_def suspend_def nextIteration_def
            removeAt_def drainInv_def inFlight_def)
    next
      case (Cons tk' rest)
      then show ?thesis
        using assms busy 0
        by (simp add: jobSettled_def drainAt_def Let_def drainInv_def inFlight_def)
    qed
  qed
next
  case waiting
  then show ?thesis using assms by (cases k) (simp_all add: jobSettled_def drainAt_def)
qed

lemma drainInv_delayElapsed:
  assumes "drainInv s"
  shows "drainInv (delayElapsed k s)"
  using assms
proof (cases rule: drainInv_cases)
  case idle
  then show ?thesis using assms by (simp add: delayElapsed_def drainAt_def)
next
  case (busy tk)
  then show ?thesis using assms by (cases k) (simp_all add: delayElapsed_def drainAt_def)
next
  case waiting
  then obtain tk' rest where q: "distributionQueue s = tk' # rest"
    by (cases "distributionQueue s") auto
  show ?thesis
  proof (cases k)
    case (Suc k')
    then show ?thesis using assms waiting by (simp add: delayElapsed_def drainAt_def)
  next
    case 0
    then show ?thesis
      using assms waiting q
      by (simp add: delayElapsed_def drainAt_def suspend_def nextIteration_def drainInv_def
          inFlight_def)
  qed
qed

lemma drainInv_step: "drainInv s \<Longrightarrow> drainInv (step s e)"
  by (cases e)
    (simp_all add: drainInv_enqueue drainInv_processDistributionQueue drainInv_jobSettled
      drainInv_delayElapsed)

lemma drainInv_run: "drainInv s \<Longrightarrow> drainInv (run evs s)"
  unfolding run_def by (induction evs arbitrary: s) (simp_all add: drainInv_step)

lemma batchDelay_step [simp]: "batchDelay (step s e) = batchDelay s"
  by (cases e)
    (auto simp: enqueue_def processDistributionQueue_def nextIteration_def jobSettled_def
      delayElapsed_def suspend_def Let_def split: list.splits option.splits drain.splits)

lemma batchDelay_run [simp]: "batchDelay (run evs s) = batchDelay s"
  unfolding run_def by (induction evs arbitrary: s) simp_all

lemma drain_goes_on:
  assumes "drains s = [Processing tk]" and "distributionQueue s = tk' # rest"
  shows "jobSettled 0 s = s\<lparr>completed := completed s @ [tk], drains := [Delaying (batchDelay s)]\<rparr>"
    and "delayElapsed 0 (jobSettled 0 s) =
      s\<lparr>completed := completed s @ [tk], drains := [Processing tk'], distributionQueue := rest,
        started := started s @ [tk']\<rparr>"
  using assms
  by (simp_all add: jobSettled_def delayElapsed_def drainAt_def Let_def suspend_def nextIteration_def)

lemma drain_ends:
  assumes "drains s = [Processing tk]" and "distributionQueue s = []"
  shows "jobSettled 0 s = s\<lparr>completed := completed s @ [tk], drains := [], isProcessing := False\<rparr>"
  using assms
  by (simp add: jobSettled_def drainAt_def Let_def suspend_def nextIteration_def removeAt_def)

lemma enqueue_idle:
  assumes "\<not> isProcessing s" and "distributionQueue s = []"
  shows "enqueue tk s = s\<lparr>pushed := pushed s @ [tk], started := started s @ [tk],
      isProcessing := True, drains := drains s @ [Processing tk]\<rparr>"
  using assms by (simp add: enqueue_def processDistributionQueue_def nextIteration_def)

lemma pushed_enqueue: "pushed (enqueue tk s) = pushed s @ [tk]"
  by (simp add: enqueue_def processDistributionQueue_def nextIteration_def Let_def split: list.splits)

lemma completed_enqueue: "completed (enqueue tk s) = completed s"
  by (simp add: enqueue_def processDistributionQueue_def nextIteration_def Let_def split: list.splits)

lemma twoQueued_eq:
  "twoQueued = newService\<lparr>isProcessing := True, distributionQueue := [jobB], drains := [Processing jobA],
     pushed := [jobA, jobB], started := [jobA]\<rparr>"
  by (simp add: twoQueued_def run_def enqueue_def processDistributionQueue_def nextIteration_def
      newService_def)

text \<open>
  C9, as claimed: between two different jobs no delay is inserted. The loop of
  \<^verbatim>\<open>processDistributionQueue\<close> awaits \<^verbatim>\<open>this.delay(this.batchDelay)\<close>, 1000 ms, after a job
  whenever another one is queued ("Small delay between tasks to prevent overwhelming"):
  with two jobs pushed, when the first has settled the loop waits for 1000 ms and the
  second is still in the queue.
\<close>

theorem delay_between_jobs:
  "run [Enqueue jobA, Enqueue jobB, JobSettled 0] newService =
     newService\<lparr>isProcessing := True, distributionQueue := [jobB], drains := [Delaying 1000],
       pushed := [jobA, jobB], started := [jobA], completed := [jobA]\<rparr>"
  by (simp add: run_def enqueue_def processDistributionQueue_def nextIteration_def jobSettled_def
      drainAt_def newService_def)

text \<open>
  C9, amended: after every sequence of pushes, calls of \<^verbatim>\<open>processDistributionQueue\<close>,
  settled jobs and fired timers on a new service, at most one drain loop is alive and
  \<^verbatim>\<open>isProcessing\<close> says whether one is; the jobs are started in the order they were pushed;
  a job is started only when every job started before it has settled, so at most one job
  is in flight. When a job settles and another is queued, the loop waits for
  \<^verbatim>\<open>batchDelay\<close> = 1000 ms and then starts the front job of the queue. When a job settles
  and the queue is empty, the loop ends and clears \<^verbatim>\<open>isProcessing\<close>, and the next push starts
  a new loop.
\<close>

theorem drain_is_sequential:
  "length (drains (run evs newService)) \<le> 1 \<and>
   isProcessing (run evs newService) = (drains (run evs newService) \<noteq> []) \<and>
   pushed (run evs newService) = started (run evs newService) @ distributionQueue (run evs newService) \<and>
   started (run evs newService) = completed (run evs newService) @ inFlight (run evs newService) \<and>
   length (inFlight (run evs newService)) \<le> 1 \<and>
   (drains (run evs newService) = [Processing tk] \<and> distributionQueue (run evs newService) = tk' # rest \<longrightarrow>
      jobSettled 0 (run evs newService) =
        (run evs newService)\<lparr>completed := completed (run evs newService) @ [tk], drains := [Delaying 1000]\<rparr> \<and>
      delayElapsed 0 (jobSettled 0 (run evs newService)) =
        (run evs newService)\<lparr>completed := completed (run evs newService) @ [tk],
          drains := [Processing tk'], distributionQueue := rest,
          started := started (run evs newService) @ [tk']\<rparr>) \<and>
   (drains (run evs newService) = [Processing tk] \<and> distributionQueue (run evs newService) = [] \<longrightarrow>
      \<not> isProcessing (jobSettled 0 (run evs newService)) \<and>
      drains (jobSettled 0 (run evs newService)) = [] \<and>
      isProcessing (enqueue tk' (jobSettled 0 (run evs newService))) \<and>
      drains (enqueue tk' (jobSettled 0 (run evs newService))) = [Processing tk'])"
proof -
  let ?s = "run evs newService"
  have inv: "drainInv ?s" by (rule drainInv_run [OF drainInv_newService])
  have fl: "length (inFlight ?s) \<le> 1"
    using inv by (cases rule: drainInv_cases) (simp_all add: inFlight_def)
  have bd: "batchDelay ?s = 1000" by (simp add: newService_def)
  have more: "jobSettled 0 ?s = ?s\<lparr>completed := completed ?s @ [tk], drains := [Delaying 1000]\<rparr> \<and>
      delayElapsed 0 (jobSettled 0 ?s) =
        ?s\<lparr>completed := completed ?s @ [tk], drains := [Processing tk'], distributionQueue := rest,
          started := started ?s @ [tk']\<rparr>"
    if "drains ?s = [Processing tk]" and "distributionQueue ?s = tk' # rest"
    using drain_goes_on [OF that] bd by simp
  have last: "\<not> isProcessing (jobSettled 0 ?s) \<and> drains (jobSettled 0 ?s) = [] \<and>
      isProcessing (enqueue tk' (jobSettled 0 ?s)) \<and>
      drains (enqueue tk' (jobSettled 0 ?s)) = [Processing tk']"
    if "drains ?s = [Processing tk]" and "distributionQueue ?s = []"
  proof -
    note e = drain_ends [OF that]
    have "\<not> isProcessing (jobSettled 0 ?s)" "distributionQueue (jobSettled 0 ?s) = []"
      "drains (jobSettled 0 ?s) = []"
      using that by (simp_all add: e)
    then show ?thesis by (simp add: enqueue_idle)
  qed
  from inv fl more last show ?thesis
    unfolding drainInv_def by blast
qed

theorem drain_is_sequential_witness:
  "drains (run [Enqueue jobA, Enqueue jobB] newService) = [Processing jobA] \<and>
   distributionQueue (run [Enqueue jobA, Enqueue jobB] newService) = [jobB] \<and>
   drains (jobSettled 0 (run [Enqueue jobA, Enqueue jobB] newService)) = [Delaying 1000] \<and>
   drains (delayElapsed 0 (jobSettled 0 (run [Enqueue jobA, Enqueue jobB] newService))) = [Processing jobB] \<and>
   drains (run [Enqueue jobA] newService) = [Processing jobA] \<and>
   distributionQueue (run [Enqueue jobA] newService) = [] \<and>
   \<not> isProcessing (jobSettled 0 (run [Enqueue jobA] newService)) \<and>
   drains (enqueue jobB (jobSettled 0 (run [Enqueue jobA] newService))) = [Processing jobB]"
proof -
  have two: "drains (run [Enqueue jobA, Enqueue jobB] newService) = [Processing jobA]"
      "distributionQueue (run [Enqueue jobA, Enqueue jobB] newService) = [jobB]"
    using twoQueued_eq by (simp_all add: twoQueued_def)
  have one: "drains (run [Enqueue jobA] newService) = [Processing jobA]"
      "distributionQueue (run [Enqueue jobA] newService) = []"
    by (simp_all add: run_def enqueue_def processDistributionQueue_def nextIteration_def newService_def)
  let ?s2 = "run [Enqueue jobA, Enqueue jobB] newService"
  from drain_is_sequential [where evs = "[Enqueue jobA, Enqueue jobB]" and tk = jobA and tk' = jobB
      and rest = "[]"] two
  have js: "jobSettled 0 ?s2 = ?s2\<lparr>completed := completed ?s2 @ [jobA], drains := [Delaying 1000]\<rparr>"
    and de: "delayElapsed 0 (jobSettled 0 ?s2) =
        ?s2\<lparr>completed := completed ?s2 @ [jobA], drains := [Processing jobB],
          distributionQueue := [], started := started ?s2 @ [jobB]\<rparr>"
    by blast+
  have a: "drains (jobSettled 0 ?s2) = [Delaying 1000]"
    by (subst js) simp
  have b: "drains (delayElapsed 0 (jobSettled 0 ?s2)) = [Processing jobB]"
    by (subst de) simp
  from drain_is_sequential [where evs = "[Enqueue jobA]" and tk = jobA and tk' = jobB] one
  have c: "\<not> isProcessing (jobSettled 0 (run [Enqueue jobA] newService))"
    and d: "drains (enqueue jobB (jobSettled 0 (run [Enqueue jobA] newService))) = [Processing jobB]"
    by blast+
  from two one a b c d show ?thesis by simp
qed

section \<open>Isolation of a failed send\<close>

lemma sends_worldTwo:
  "sendCVToAgency chanOnlyFresh candSouth eligStale = Inl ChannelError"
  "sendCVToAgency chanOnlyFresh candSouth eligFresh = Inr True"
  by (simp_all add: sendCVToAgency_def activeEmails_def eligStale_def eligFresh_def agencyFresh_def
      agencyStale_def chanOnlyFresh_def)

text \<open>
  C4. In a batch that holds every agency once, with the store answering: if the send to
  \<open>A\<close> throws and the send to \<open>B\<close> succeeds, the batch returns its counters (nothing is
  thrown), with \<open>B\<close> among the successes and \<open>A\<close> among the errors, each agency counted
  on its own send; the quota update is applied to the document of \<open>B\<close>, which adds one
  to a counter that is fresh, and the document of \<open>A\<close> is left alone. Whatever the channel
  does, a job returns with every agency of every batch attempted and counted, and when it
  has settled the drain loop goes on to the next job of the queue.
\<close>

theorem send_failure_is_isolated:
  assumes "A \<in> set batch" and "B \<in> set batch"
    and "distinct (agencyIds batch)"
    and "sendCVToAgency chan cand A = Inl e" and "sendCVToAgency chan cand B = Inr v"
    and "dbConnected w"
  shows "success (fst (processBatch chan now cand batch w)) = length (filter (sendOK chan cand) batch) \<and>
     errors (fst (processBatch chan now cand batch w)) = length (filter (\<lambda>ag. \<not> sendOK chan cand ag) batch) \<and>
     1 \<le> success (fst (processBatch chan now cand batch w)) \<and>
     1 \<le> errors (fst (processBatch chan now cand batch w)) \<and>
     success (fst (processBatch chan now cand batch w)) + errors (fst (processBatch chan now cand batch w)) = length batch \<and>
     findById (company_id (agency B)) (companies (snd (processBatch chan now cand batch w))) =
       map_option (quotaUpdate now) (findById (company_id (agency B)) (companies w)) \<and>
     findById (company_id (agency A)) (companies (snd (processBatch chan now cand batch w))) =
       findById (company_id (agency A)) (companies w) \<and>
     (findById (company_id (agency B)) (companies w) = Some c \<and>
      \<not> lastCountResetLt (now - oneDayMs) c \<longrightarrow>
        storedDailyCount (company_id (agency B)) (snd (processBatch chan now cand batch w)) =
          Some (storedCount c + 1)) \<and>
     (0 < mbs \<longrightarrow>
        (\<exists>rep w'. processSingleDistribution chan lat mbs t0 tk w = Some (rep, w') \<and>
           successCount rep = length (filter (sendOK chan (taskCandidate tk)) (taskAgencies tk)) \<and>
           errorCount rep = length (filter (\<lambda>ag. \<not> sendOK chan (taskCandidate tk) ag) (taskAgencies tk)) \<and>
           concat (map batchAgencies (batchRuns rep)) = taskAgencies tk)) \<and>
     (drains s = [Processing tk] \<and> distributionQueue s = tk' # rest \<longrightarrow>
        drains (delayElapsed 0 (jobSettled 0 s)) = [Processing tk'] \<and>
        completed (delayElapsed 0 (jobSettled 0 s)) = completed s @ [tk])"
proof -
  have jobs: "drains s = [Processing tk] \<and> distributionQueue s = tk' # rest \<longrightarrow>
        drains (delayElapsed 0 (jobSettled 0 s)) = [Processing tk'] \<and>
        completed (delayElapsed 0 (jobSettled 0 s)) = completed s @ [tk]"
    by (simp add: drain_goes_on(2))
  have batches: "0 < mbs \<longrightarrow>
        (\<exists>rep w'. processSingleDistribution chan lat mbs t0 tk w = Some (rep, w') \<and>
           successCount rep = length (filter (sendOK chan (taskCandidate tk)) (taskAgencies tk)) \<and>
           errorCount rep = length (filter (\<lambda>ag. \<not> sendOK chan (taskCandidate tk) ag) (taskAgencies tk)) \<and>
           concat (map batchAgencies (batchRuns rep)) = taskAgencies tk)"
    using job_counts [of mbs chan lat t0 tk w] by blast
  note batch = processBatch_isolates_failure [OF assms, of now]
  have fresh: "findById (company_id (agency B)) (companies w) = Some c \<and>
      \<not> lastCountResetLt (now - oneDayMs) c \<longrightarrow>
        storedDailyCount (company_id (agency B)) (snd (processBatch chan now cand batch w)) =
          Some (storedCount c + 1)"
    using batch by (auto simp: storedDailyCount_def quotaUpdate_fresh)
  from batch fresh jobs batches show ?thesis
    by (intro conjI) blast+
qed

theorem send_failure_is_isolated_witness:
  "eligStale \<in> set [eligStale, eligFresh] \<and> eligFresh \<in> set [eligStale, eligFresh] \<and>
   distinct (agencyIds [eligStale, eligFresh]) \<and>
   sendCVToAgency chanOnlyFresh candSouth eligStale = Inl ChannelError \<and>
   sendCVToAgency chanOnlyFresh candSouth eligFresh = Inr True \<and> dbConnected worldTwo \<and>
   fst (processBatch chanOnlyFresh 200000000 candSouth [eligStale, eligFresh] worldTwo) =
     \<lparr>success = 1, errors = 1\<rparr> \<and>
   storedDailyCount 5 worldTwo = Some 3 \<and>
   storedDailyCount 5 (snd (processBatch chanOnlyFresh 200000000 candSouth [eligStale, eligFresh] worldTwo)) = Some 4 \<and>
   storedDailyCount 7 (snd (processBatch chanOnlyFresh 200000000 candSouth [eligStale, eligFresh] worldTwo)) = Some 50 \<and>
   drains twoQueued = [Processing jobA] \<and> distributionQueue twoQueued = [jobB] \<and>
   drains (delayElapsed 0 (jobSettled 0 twoQueued)) = [Processing jobB]"
proof -
  have a: "eligStale \<in> set [eligStale, eligFresh]" and b: "eligFresh \<in> set [eligStale, eligFresh]"
    by simp_all
  have d: "distinct (agencyIds [eligStale, eligFresh])"
    by (simp add: agencyIds_def eligStale_def eligFresh_def agencyFresh_def agencyStale_def)
  have c: "dbConnected worldTwo" by (simp add: worldTwo_def)
  have q: "drains twoQueued = [Processing jobA]" "distributionQueue twoQueued = [jobB]"
    by (simp_all add: twoQueued_eq)
  have f5: "findById 5 (companies worldTwo) = Some agencyFresh"
    and f7: "findById 7 (companies worldTwo) = Some agencyStale"
    by (simp_all add: worldTwo_def agencyFresh_def agencyStale_def)
  have ids: "company_id (agency eligFresh) = 5" "company_id (agency eligStale) = 7"
    by (simp_all add: eligStale_def eligFresh_def agencyFresh_def agencyStale_def)
  have qu: "quotaUpdate 200000000 agencyFresh = agencyFresh\<lparr>distributionSettings :=
       Some \<lparr>maxCVsPerDay = Some 50, dailyCount = Some 4, lastCountReset = Some 199999000\<rparr>\<rparr>"
    by (simp add: quotaUpdate_def incDailyCount_def lastCountResetLt_def agencyFresh_def oneDayMs_def)
  note t = send_failure_is_isolated [OF a b d sends_worldTwo c,
      where now = 200000000 and mbs = 100 and ?t0.0 = 0 and tk = jobA and s = twoQueued
        and tk' = jobB and rest = "[]" and c = agencyFresh]
  have r: "fst (processBatch chanOnlyFresh 200000000 candSouth [eligStale, eligFresh] worldTwo) =
     \<lparr>success = 1, errors = 1\<rparr>"
    using t by (simp add: sendOK_def isOK_def sends_worldTwo)
  have fr: "\<not> lastCountResetLt (200000000 - oneDayMs) agencyFresh"
    by (simp add: lastCountResetLt_def agencyFresh_def oneDayMs_def)
  have sc: "storedCount agencyFresh = 3"
    by (simp add: storedCount_def settingsOf_def agencyFresh_def)
  have s5: "storedDailyCount 5 (snd (processBatch chanOnlyFresh 200000000 candSouth [eligStale, eligFresh] worldTwo)) = Some 4"
    using t fr by (simp add: ids f5 sc)
  have s7: "storedDailyCount 7 (snd (processBatch chanOnlyFresh 200000000 candSouth [eligStale, eligFresh] worldTwo)) = Some 50"
    using t by (simp add: storedDailyCount_def ids f7) (simp add: agencyStale_def)
  have s5': "storedDailyCount 5 worldTwo = Some 3"
    by (simp add: storedDailyCount_def f5) (simp add: agencyFresh_def)
  have dr: "drains (delayElapsed 0 (jobSettled 0 twoQueued)) = [Processing jobB]"
    using t q by simp
  from a b d sends_worldTwo c r s5' s5 s7 q dr show ?thesis by simp
qed

section \<open>\<^verbatim>\<open>distributeCVToAgencies\<close>\<close>

lemma no_region_no_agency:
  assumes "dbConnected w" and "\<forall>c\<in>set (companies w). region \<notin> set (supportRegions c)"
  shows "getEligibleAgencies now region w = Inr []"
proof -
  have "filter (\<lambda>c. agencyQuery region c \<and> hasActiveSubscription now w c \<and>
                     effectiveCount now c < maxDaily c) (companies w) = []"
    using assms(2) by (auto simp: filter_empty_conv agencyQuery_def)
  then show ?thesis by (simp add: getEligibleAgencies_filter [OF assms(1)])
qed

lemma toLowerCase_South: "toLowerCase ''South'' = ''south''"
  by code_simp

lemma toLowerCase_north: "toLowerCase ''north'' = ''north''"
  by code_simp

lemma region_candSouth: "extractRegionFromCandidate regionMap candSouth = ''south''"
  by (simp add: extractRegionFromCandidate_def candSouth_def truthyStr_def toLowerCase_South
      canonicalRegions_def)

lemma region_candNorth: "extractRegionFromCandidate regionMap candNorth = ''north''"
  by (simp add: extractRegionFromCandidate_def candSouth_def candNorth_def truthyStr_def
      toLowerCase_north canonicalRegions_def)

text \<open>
  C6. For a valid candidate: when resolution yields no agency, and so when no agency
  covers the candidate's region and the store answers, \<^verbatim>\<open>distributeCVToAgencies\<close> returns
  success with a count of 0 and leaves the service as it was: nothing is pushed, no job
  is started, so no send is made, and nothing is thrown. When resolution yields agencies,
  it returns success with their number, whatever the channel will do, after pushing the
  job, and no job has been settled by the call.
\<close>

theorem distributeCVToAgencies_result:
  assumes "validCandidate candidate"
  shows "(getEligibleAgencies now (extractRegionFromCandidate regionMap (the candidate)) w = Inr [] \<longrightarrow>
       distributeCVToAgencies regionMap now queuedAt candidate w s =
         Inr (\<lparr>resultSuccess = True, distributed = 0\<rparr>, s)) \<and>
     (dbConnected w \<and>
      (\<forall>c\<in>set (companies w). extractRegionFromCandidate regionMap (the candidate) \<notin> set (supportRegions c)) \<longrightarrow>
       distributeCVToAgencies regionMap now queuedAt candidate w s =
         Inr (\<lparr>resultSuccess = True, distributed = 0\<rparr>, s)) \<and>
     (getEligibleAgencies now (extractRegionFromCandidate regionMap (the candidate)) w = Inr ags \<and> ags \<noteq> [] \<longrightarrow>
       distributeCVToAgencies regionMap now queuedAt candidate w s =
         Inr (\<lparr>resultSuccess = True, distributed = length ags\<rparr>,
              enqueue (taskOf (the candidate) ags queuedAt) s) \<and>
       pushed (enqueue (taskOf (the candidate) ags queuedAt) s) =
         pushed s @ [taskOf (the candidate) ags queuedAt] \<and>
       completed (enqueue (taskOf (the candidate) ags queuedAt) s) = completed s)"
proof -
  let ?region = "extractRegionFromCandidate regionMap (the candidate)"
  have none: "distributeCVToAgencies regionMap now queuedAt candidate w s =
         Inr (\<lparr>resultSuccess = True, distributed = 0\<rparr>, s)"
    if "getEligibleAgencies now ?region w = Inr []"
    using assms that by (simp add: distributeCVToAgencies_def Let_def)
  have region: "distributeCVToAgencies regionMap now queuedAt candidate w s =
         Inr (\<lparr>resultSuccess = True, distributed = 0\<rparr>, s)"
    if "dbConnected w" and "\<forall>c\<in>set (companies w). ?region \<notin> set (supportRegions c)"
    using none [OF no_region_no_agency [OF that]] .
  have some: "distributeCVToAgencies regionMap now queuedAt candidate w s =
         Inr (\<lparr>resultSuccess = True, distributed = length ags\<rparr>,
              enqueue (taskOf (the candidate) ags queuedAt) s)"
    if "getEligibleAgencies now ?region w = Inr ags" and "ags \<noteq> []"
    using assms that by (simp add: distributeCVToAgencies_def Let_def taskOf_def)
  from none region some show ?thesis
    by (simp add: pushed_enqueue completed_enqueue)
qed

theorem distributeCVToAgencies_result_witness:
  "validCandidate (Some candNorth) \<and> validCandidate (Some candSouth) \<and>
   getEligibleAgencies 200000000 ''north'' worldStale = Inr [] \<and>
   distributeCVToAgencies [] 200000000 200000050 (Some candNorth) worldStale newService =
     Inr (\<lparr>resultSuccess = True, distributed = 0\<rparr>, newService) \<and>
   getEligibleAgencies 200000000 ''south'' worldStale = Inr [eligStale] \<and>
   distributeCVToAgencies [] 200000000 200000050 (Some candSouth) worldStale newService =
     Inr (\<lparr>resultSuccess = True, distributed = 1\<rparr>,
          newService\<lparr>isProcessing := True, drains := [Processing jobB], pushed := [jobB],
            started := [jobB]\<rparr>)"
proof -
  have vn: "validCandidate (Some candNorth)" and vs: "validCandidate (Some candSouth)"
    by (simp_all add: validCandidate_def candNorth_def candSouth_def)
  have up: "dbConnected worldStale" by (simp add: worldStale_def)
  have north: "\<forall>c\<in>set (companies worldStale). ''north'' \<notin> set (supportRegions c)"
    by (simp add: worldStale_def agencyStale_def)
  have gn: "getEligibleAgencies 200000000 ''north'' worldStale = Inr []"
    by (rule no_region_no_agency [OF up north])
  have gs: "getEligibleAgencies 200000000 ''south'' worldStale = Inr [eligStale]"
    by (simp add: getEligibleAgencies_def worldStale_def agencyQuery_def agencyStale_def
        subscriptionQuery_def subscriptionOf_def effectiveCount_def lastReset_def settingsOf_def
        maxDaily_def oneDayMs_def eligStale_def)
  have tk: "taskOf candSouth [eligStale] 200000050 = jobB"
    by (simp add: taskOf_def jobB_def candSouth_def)
  have en: "enqueue jobB newService = newService\<lparr>isProcessing := True, drains := [Processing jobB],
      pushed := [jobB], started := [jobB]\<rparr>"
    by (simp add: enqueue_def processDistributionQueue_def nextIteration_def newService_def)
  from distributeCVToAgencies_result [OF vn, where now = 200000000 and regionMap = "[]"
      and w = worldStale and queuedAt = 200000050 and s = newService and ags = "[]"]
  have r1: "distributeCVToAgencies [] 200000000 200000050 (Some candNorth) worldStale newService =
     Inr (\<lparr>resultSuccess = True, distributed = 0\<rparr>, newService)"
    using gn by (simp add: region_candNorth)
  from distributeCVToAgencies_result [OF vs, where now = 200000000 and regionMap = "[]"
      and w = worldStale and queuedAt = 200000050 and s = newService and ags = "[eligStale]"]
  have r2: "distributeCVToAgencies [] 200000000 200000050 (Some candSouth) worldStale newService =
     Inr (\<lparr>resultSuccess = True, distributed = 1\<rparr>,
          newService\<lparr>isProcessing := True, drains := [Processing jobB], pushed := [jobB],
            started := [jobB]\<rparr>)"
    using gs by (simp add: region_candSouth tk en)
  from vn vs gn r1 gs r2 show ?thesis by simp
qed

end
